theory Spec2Isabelle
  imports Main "HOL-Library.Multiset" "HOL-Library.Sublist"
begin

section \<open>JavaScript strings\<close>

text \<open>
  A JavaScript string is a sequence of UTF-16 code units; \<open>length\<close>, the regular
  expressions without the \<open>u\<close> flag, \<open>split\<close>, \<open>startsWith\<close> and \<open>includes\<close> all
  work on code units. A code unit is modelled by its number, an integer (the
  arithmetic on numerals of type \<open>int\<close> is binary).
\<close>

type_synonym codeunit = int

type_synonym jstring = "codeunit list"

definition js :: "string \<Rightarrow> jstring" where
  "js s = map of_char s"

text \<open>ECMAScript \<open>WhiteSpace\<close> and \<open>LineTerminator\<close>: what \<open>\s\<close> and \<open>trim\<close> strip.\<close>

definition isLineTerminator :: "codeunit \<Rightarrow> bool" where
  "isLineTerminator c = (c = 10 \<or> c = 13 \<or> c = 8232 \<or> c = 8233)"

definition isWhiteSpace :: "codeunit \<Rightarrow> bool" where
  "isWhiteSpace c =
     (c = 9 \<or> c = 10 \<or> c = 11 \<or> c = 12 \<or> c = 13 \<or> c = 32 \<or> c = 160 \<or> c = 5760
      \<or> (8192 \<le> c \<and> c \<le> 8202) \<or> c = 8232 \<or> c = 8233 \<or> c = 8239 \<or> c = 8287
      \<or> c = 12288 \<or> c = 65279)"

definition isDigit :: "codeunit \<Rightarrow> bool" where
  "isDigit c = (48 \<le> c \<and> c \<le> 57)"

definition trim :: "jstring \<Rightarrow> jstring" where
  "trim s = rev (dropWhile isWhiteSpace (rev (dropWhile isWhiteSpace s)))"

text \<open>
  \<open>String.prototype.toUpperCase\<close> applies the Unicode case mapping of the platform,
  which is not part of the repository: it is a parameter, \<open>toUpperCase\<close>, of every
  function that uses it. What ECMAScript fixes of it on a string of Basic Latin code
  units is \<open>upperBasicLatin\<close>: \<open>a\<close>..\<open>z\<close> go to \<open>A\<close>..\<open>Z\<close>, every other unit stays.
\<close>

definition upperUnit :: "codeunit \<Rightarrow> codeunit" where
  "upperUnit c = (if 97 \<le> c \<and> c \<le> 122 then c - 32 else c)"

definition upperBasicLatin :: "jstring \<Rightarrow> jstring" where
  "upperBasicLatin s = map upperUnit s"

definition isBasicLatin :: "jstring \<Rightarrow> bool" where
  "isBasicLatin s = list_all (\<lambda>c. 0 \<le> c \<and> c < 128) s"

definition startsWith :: "jstring \<Rightarrow> jstring \<Rightarrow> bool" where
  "startsWith p s = (take (length p) s = p)"

fun includes_str :: "jstring \<Rightarrow> jstring \<Rightarrow> bool" where
  "includes_str p [] = (p = [])"
| "includes_str p (x # xs) = (startsWith p (x # xs) \<or> includes_str p xs)"

text \<open>\<open>s.split(c)\<close> for a one-unit separator: never the empty array.\<close>

fun split :: "codeunit \<Rightarrow> jstring \<Rightarrow> jstring list" where
  "split c [] = [[]]"
| "split c (x # xs) =
     (if x = c then [] # split c xs
      else (case split c xs of [] \<Rightarrow> [[x]] | p # ps \<Rightarrow> (x # p) # ps))"

fun join :: "codeunit \<Rightarrow> jstring list \<Rightarrow> jstring" where
  "join c [] = []"
| "join c [p] = p"
| "join c (p # q # ps) = p @ c # join c (q # ps)"

section \<open>The name normalizer\<close>

text \<open>
  \<open>n.replace(/\[.*?\]/g, '')\<close> and its two siblings: at an opening bracket the lazy
  \<open>.*?\<close> runs to the nearest closing bracket, and \<open>.\<close> stops at a line terminator.
  \<open>findClose\<close> returns what follows the closing bracket.
\<close>

fun findClose :: "codeunit \<Rightarrow> jstring \<Rightarrow> jstring option" where
  "findClose c [] = None"
| "findClose c (x # xs) =
     (if x = c then Some xs
      else if isLineTerminator x then None
      else findClose c xs)"

lemma findClose_length: "findClose c xs = Some r \<Longrightarrow> length r < length xs"
  by (induction xs) (auto split: if_splits)

function removeBracketed :: "codeunit \<Rightarrow> codeunit \<Rightarrow> jstring \<Rightarrow> jstring" where
  "removeBracketed a c [] = []"
| "removeBracketed a c (x # xs) =
     (if x = a then
        (case findClose c xs of
           Some r \<Rightarrow> removeBracketed a c r
         | None \<Rightarrow> x # removeBracketed a c xs)
      else x # removeBracketed a c xs)"
  by pat_completeness auto
termination
  by (relation "measure (\<lambda>(a, c, s). length s)")
     (auto dest: findClose_length)

text \<open>
  \<open>/CCTV\s*[-]?\s*(\d+)(\+)?/g\<close> replaced by \<open>'CCTV-$1$2'\<close>. The classes of
  white space, \<open>-\<close> and digits are disjoint, so the greedy reading is the only one.
  \<open>matchCCTV\<close> tries the expression at the head of the string and returns the
  replacement and the rest.
\<close>

definition skipSeparators :: "jstring \<Rightarrow> jstring" where
  "skipSeparators s =
     (let r1 = dropWhile isWhiteSpace s;
          r2 = (case r1 of [] \<Rightarrow> r1 | x # xs \<Rightarrow> if x = 45 then xs else r1)
      in dropWhile isWhiteSpace r2)"

definition matchCCTV :: "jstring \<Rightarrow> (jstring \<times> jstring) option" where
  "matchCCTV s =
     (if startsWith (js ''CCTV'') s then
        (let r3 = skipSeparators (drop 4 s);
             ds = takeWhile isDigit r3;
             r4 = dropWhile isDigit r3
         in if ds = [] then None
            else (case r4 of
                    [] \<Rightarrow> Some (js ''CCTV-'' @ ds, r4)
                  | x # xs \<Rightarrow> if x = 43 then Some (js ''CCTV-'' @ ds @ [43], xs)
                              else Some (js ''CCTV-'' @ ds, r4)))
      else None)"

lemma length_dropWhile_trans: "length xs \<le> n \<Longrightarrow> length (dropWhile P xs) \<le> n"
  using length_dropWhile_le[of P xs] by linarith

lemma skipSeparators_length: "length (skipSeparators s) \<le> length s"
proof -
  have "length (case dropWhile isWhiteSpace s of [] \<Rightarrow> dropWhile isWhiteSpace s
          | x # xs \<Rightarrow> if x = 45 then xs else dropWhile isWhiteSpace s) \<le> length s"
    using length_dropWhile_le[of isWhiteSpace s] by (auto split: list.splits)
  then show ?thesis
    unfolding skipSeparators_def Let_def by (rule length_dropWhile_trans)
qed

lemma matchCCTV_length:
  assumes "matchCCTV s = Some (rep, r)"
  shows "length r < length s"
proof -
  define r4 where "r4 = dropWhile isDigit (skipSeparators (drop 4 s))"
  from assms have st: "startsWith (js ''CCTV'') s"
    by (simp add: matchCCTV_def split: if_splits)
  then have "length (js ''CCTV'') \<le> length s"
    unfolding startsWith_def using length_take[of "length (js ''CCTV'')" s] by simp
  then have "4 \<le> length s"
    by (simp add: js_def)
  then have "length (drop 4 s) < length s"
    by simp
  moreover have "length r4 \<le> length (drop 4 s)"
    unfolding r4_def
    by (intro length_dropWhile_trans) (rule skipSeparators_length)
  moreover from assms st have "r = r4 \<or> r = tl r4"
    by (simp add: matchCCTV_def Let_def r4_def split: if_splits list.splits)
  then have "length r \<le> length r4"
    by auto
  ultimately show ?thesis by linarith
qed

function replaceCCTV :: "jstring \<Rightarrow> jstring" where
  "replaceCCTV [] = []"
| "replaceCCTV (x # xs) =
     (case matchCCTV (x # xs) of
        Some (rep, r) \<Rightarrow> rep @ replaceCCTV r
      | None \<Rightarrow> x # replaceCCTV xs)"
  by pat_completeness auto
termination
  by (relation "measure length") (auto dest: matchCCTV_length)

text \<open>
  \<open>new RegExp(k, 'g')\<close>: the keyword is read as a pattern. In the vocabulary the only
  character that is not a literal is the \<open>.\<close> of \<open>H.265\<close>, which matches any code
  unit but a line terminator.
\<close>

datatype patom = Lit codeunit | AnyChar

definition RegExp :: "jstring \<Rightarrow> patom list" where
  "RegExp k = map (\<lambda>c. if c = 46 then AnyChar else Lit c) k"

fun matchAtoms :: "patom list \<Rightarrow> jstring \<Rightarrow> jstring option" where
  "matchAtoms [] s = Some s"
| "matchAtoms (a # as) [] = None"
| "matchAtoms (Lit c # as) (x # xs) = (if x = c then matchAtoms as xs else None)"
| "matchAtoms (AnyChar # as) (x # xs) =
     (if isLineTerminator x then None else matchAtoms as xs)"

lemma matchAtoms_length: "matchAtoms p s = Some r \<Longrightarrow> length r \<le> length s"
  by (induction p s rule: matchAtoms.induct) (auto split: if_splits)

text \<open>
  \<open>n.replace(re, '')\<close> with the \<open>g\<close> flag: matches are taken left to right and do
  not overlap; after an empty match the scan moves on by one unit.
\<close>

function replaceAll :: "patom list \<Rightarrow> jstring \<Rightarrow> jstring" where
  "replaceAll p [] = []"
| "replaceAll p (x # xs) =
     (case matchAtoms p (x # xs) of
        Some r \<Rightarrow> if length r < length (x # xs) then replaceAll p r
                  else x # replaceAll p xs
      | None \<Rightarrow> x # replaceAll p xs)"
  by pat_completeness auto
termination
  by (relation "measure (\<lambda>(p, s). length s)") auto

text \<open>
  The vocabulary \<open>keywords\<close>, in the order of the source. The tokens given as
  numbers are the Chinese ones, two code units each: U+76F4 U+64AD; U+9AD8 U+6E05,
  U+8D85 U+6E05, U+6807 U+6E05, U+9891 U+9053; U+6D4B U+8BD5; and the four carrier
  and venue names U+7535 U+4FE1, U+8054 U+901A, U+79FB U+52A8, U+9152 U+5E97.
\<close>

definition keyword_list :: "jstring list" where
  "keyword_list =
     [js ''HD'', js ''FHD'', js ''SD'', js ''UHD'',
      js ''HEVC'', js ''H.265'', js ''H264'',
      js ''IPTV'', js ''LIVE'', [30452, 25773],
      [39640, 28165], [36229, 28165], [26631, 28165], [39057, 36947],
      js ''TEST'', [27979, 35797],
      js ''IPV6'', js ''IPV4'',
      js ''1080P'', js ''720P'', js ''4K'', js ''8K'',
      js ''50FPS'', js ''60FPS'',
      [30005, 20449], [32852, 36890], [31227, 21160], [37202, 24215]]"

text \<open>\<open>ks.forEach(k => { n = n.replace(new RegExp(k, 'g'), '') })\<close>\<close>

definition removeKeywords :: "jstring list \<Rightarrow> jstring \<Rightarrow> jstring" where
  "removeKeywords ks n = fold (\<lambda>k n. replaceAll (RegExp k) n) ks n"

definition isSeparator :: "codeunit \<Rightarrow> bool" where
  "isSeparator c = (c = 45 \<or> c = 95)"

definition normalizeName :: "(jstring \<Rightarrow> jstring) \<Rightarrow> jstring \<Rightarrow> jstring" where
  "normalizeName toUpperCase name =
     (let n = toUpperCase name;
          n = removeBracketed 40 41 (removeBracketed 65288 65289 (removeBracketed 91 93 n));
          n = replaceCCTV n;
          n = removeKeywords keyword_list n;
          n = filter (\<lambda>c. \<not> isWhiteSpace c) n;
          n = rev (dropWhile isSeparator (rev n))
      in trim n)"

section \<open>The data model\<close>

datatype status = Idle | Checking | Online | Offline | Error

datatype category = China | International | Other

record source =
  id_s :: jstring
  url :: jstring
  status :: status
  latency :: "int option"
  resolution :: "jstring option"

record channel =
  id_c :: jstring
  name :: jstring
  group_c :: jstring
  category :: category
  sources :: "source list"
  bestSource :: "source option"

section \<open>The aggregator\<close>

text \<open>
  \<open>channelMap\<close> is a JavaScript \<open>Map\<close>: it keeps its keys in insertion order, and
  \<open>set\<close> on a key it already holds replaces the value where it stands. \<open>generateId\<close>
  draws on \<open>Math.random\<close>; the model takes the sequence \<open>gen\<close> of the identifiers
  it returns, and counts the calls made so far in \<open>idCount\<close>.
\<close>

type_synonym chmap = "(jstring \<times> channel) list"

fun mapSet :: "jstring \<Rightarrow> channel \<Rightarrow> chmap \<Rightarrow> chmap" where
  "mapSet k v [] = [(k, v)]"
| "mapSet k v ((k', v') # m) = (if k' = k then (k, v) # m else (k', v') # mapSet k v m)"

record agg =
  channelMap :: chmap
  idCount :: nat

text \<open>
  \<open>channelMap.get(normalizedKey)!\<close> is never \<open>undefined\<close>: the key has just been
  set when it was missing. The model returns the map as it is in that case.
\<close>

definition addChannelToMap ::
  "(jstring \<Rightarrow> jstring) \<Rightarrow> (nat \<Rightarrow> jstring) \<Rightarrow> jstring \<Rightarrow> jstring \<Rightarrow> jstring
     \<Rightarrow> category \<Rightarrow> agg \<Rightarrow> agg" where
  "addChannelToMap toUpperCase gen nm grp u cat st =
     (let cleanName = trim nm;
          normalizedKey = normalizeName toUpperCase cleanName
      in if length normalizedKey < 2 then st
         else
           (let st1 =
                  (if map_of (channelMap st) normalizedKey = None then
                     st\<lparr>channelMap := mapSet normalizedKey
                          \<lparr>id_c = gen (idCount st), name = cleanName,
                           group_c = (if grp = [] then js ''Other'' else grp),
                           category = cat, sources = [], bestSource = None\<rparr>
                          (channelMap st),
                        idCount := idCount st + 1\<rparr>
                   else st)
            in case map_of (channelMap st1) normalizedKey of
                 None \<Rightarrow> st1
               | Some ch \<Rightarrow>
                   if list_ex (\<lambda>s. url s = u) (sources ch) then st1
                   else st1\<lparr>channelMap := mapSet normalizedKey
                              (ch\<lparr>sources := sources ch @
                                   [\<lparr>id_s = gen (idCount st1), url = u, status = Idle,
                                     latency = None, resolution = None\<rparr>]\<rparr>)
                              (channelMap st1),
                            idCount := idCount st1 + 1\<rparr>))"

section \<open>The parser\<close>

text \<open>
  \<open>line.match(/group-title="([^"]*)"/)\<close> and the same for \<open>tvg-name\<close>: the first
  place where the attribute's opening, a run without \<open>"\<close> and a closing \<open>"\<close> follow
  each other; the result is the run.
\<close>

fun matchAttr :: "jstring \<Rightarrow> jstring \<Rightarrow> jstring option" where
  "matchAttr pre [] = None"
| "matchAttr pre (x # xs) =
     (if startsWith pre (x # xs) \<and> 34 \<in> set (drop (length pre) (x # xs))
      then Some (takeWhile (\<lambda>c. c \<noteq> 34) (drop (length pre) (x # xs)))
      else matchAttr pre xs)"

text \<open>
  One turn of the loop over the lines, as far as the parser's own variables go: the
  arguments of the call of \<open>addChannelToMap\<close> the line makes, if it makes one, and
  the new \<open>currentName\<close> and \<open>currentGroup\<close>.
\<close>

type_synonym pending = "jstring \<times> jstring"
type_synonym rec3 = "jstring \<times> jstring \<times> jstring"

definition looksLikeUrl :: "jstring \<Rightarrow> bool" where
  "looksLikeUrl s =
     (startsWith (js ''http'') s \<or> startsWith (js ''rtmp'') s \<or> startsWith (js ''p2p'') s)"

definition parseLine :: "jstring \<Rightarrow> pending \<Rightarrow> rec3 option \<times> pending" where
  "parseLine line0 pend =
     (let line = trim line0; currentName = fst pend; currentGroup = snd pend
      in if line = [] then (None, pend)
         else if startsWith (js ''#EXTINF:'') line then
           (let groupMatch = matchAttr (js ''group-title='' @ [34]) line;
                currentGroup = (case groupMatch of Some g \<Rightarrow> g | None \<Rightarrow> js ''Uncategorized'');
                tvgNameMatch = matchAttr (js ''tvg-name='' @ [34]) line;
                trailingName = trim (last (split 44 line));
                currentName = (case tvgNameMatch of Some n \<Rightarrow> n | None \<Rightarrow> trailingName);
                currentName = (if currentName = [] then trailingName else currentName)
            in (None, (currentName, currentGroup)))
         else if includes_str [44] line \<and> \<not> startsWith [35] line then
           (let parts = split 44 line;
                possibleUrl = trim (last parts)
            in if looksLikeUrl possibleUrl
               then (Some (trim (join 44 (butlast parts)), js ''Other'', possibleUrl),
                     ([], currentGroup))
               else (None, pend))
         else if \<not> startsWith [35] line
                 \<and> (startsWith (js ''http'') line \<or> startsWith (js ''rtmp'') line) then
           (if currentName \<noteq> [] then (Some (currentName, currentGroup, line), pend)
            else (None, pend))
         else (None, pend))"

definition processLine ::
  "(jstring \<Rightarrow> jstring) \<Rightarrow> (nat \<Rightarrow> jstring) \<Rightarrow> category \<Rightarrow> jstring
     \<Rightarrow> pending \<times> agg \<Rightarrow> pending \<times> agg" where
  "processLine toUpperCase gen cat line0 ps =
     (case parseLine line0 (fst ps) of
        (None, pend) \<Rightarrow> (pend, snd ps)
      | (Some (nm, grp, u), pend) \<Rightarrow> (pend, addChannelToMap toUpperCase gen nm grp u cat (snd ps)))"

definition processPlaylist ::
  "(jstring \<Rightarrow> jstring) \<Rightarrow> (nat \<Rightarrow> jstring) \<Rightarrow> jstring \<times> category \<Rightarrow> agg \<Rightarrow> agg" where
  "processPlaylist toUpperCase gen pl st =
     snd (fold (processLine toUpperCase gen (snd pl)) (split 10 (fst pl)) (([], []), st))"

text \<open>
  \<open>Array.prototype.sort\<close> is stable; it is modelled as the insertion sort that puts
  \<open>x\<close> before the first \<open>y\<close> with \<open>cmp x y \<le> 0\<close>. \<open>localeCompare\<close> with the
  \<open>zh-CN\<close> collation is the platform's, and is a parameter.
\<close>

fun insertBy :: "('a \<Rightarrow> 'a \<Rightarrow> int) \<Rightarrow> 'a \<Rightarrow> 'a list \<Rightarrow> 'a list" where
  "insertBy cmp x [] = [x]"
| "insertBy cmp x (y # ys) = (if cmp x y \<le> 0 then x # y # ys else y # insertBy cmp x ys)"

definition sortBy :: "('a \<Rightarrow> 'a \<Rightarrow> int) \<Rightarrow> 'a list \<Rightarrow> 'a list" where
  "sortBy cmp xs = foldr (insertBy cmp) xs []"

definition compareChannels ::
  "(jstring \<Rightarrow> jstring) \<Rightarrow> (jstring \<Rightarrow> jstring \<Rightarrow> int) \<Rightarrow> channel \<Rightarrow> channel \<Rightarrow> int" where
  "compareChannels toUpperCase localeCompare a b =
     (let isCCTVa = includes_str (js ''CCTV'') (toUpperCase (name a));
          isCCTVb = includes_str (js ''CCTV'') (toUpperCase (name b));
          isWSa = includes_str [21355, 35270] (name a);
          isWSb = includes_str [21355, 35270] (name b)
      in if isCCTVa \<and> \<not> isCCTVb then - 1
         else if \<not> isCCTVa \<and> isCCTVb then 1
         else if isWSa \<and> \<not> isWSb then - 1
         else if \<not> isWSa \<and> isWSb then 1
         else localeCompare (name a) (name b))"

definition parseAndAggregate ::
  "(jstring \<Rightarrow> jstring) \<Rightarrow> (nat \<Rightarrow> jstring) \<Rightarrow> (jstring \<Rightarrow> jstring \<Rightarrow> int)
     \<Rightarrow> (jstring \<times> category) list \<Rightarrow> channel list" where
  "parseAndAggregate toUpperCase gen localeCompare playlists =
     sortBy (compareChannels toUpperCase localeCompare)
       (map snd (channelMap (fold (processPlaylist toUpperCase gen) playlists
                               \<lparr>channelMap = [], idCount = 0\<rparr>)))"

section \<open>The probe\<close>

record task =
  channelId :: jstring
  sourceId :: jstring
  t_url :: jstring

text \<open>What \<open>checkSource\<close> returns: the task's fields and the three of the outcome.\<close>

record result =
  r_channelId :: jstring
  r_sourceId :: jstring
  r_url :: jstring
  r_status :: status
  r_latency :: "int option"
  r_resolution :: "jstring option"

text \<open>
  What the network does to one probe. \<open>Throws\<close>: \<open>fetch\<close> rejects (network or
  cross-origin failure, or the abort after \<open>TIMEOUT_MS\<close>). \<open>Response ok ms body\<close>:
  it resolves, \<open>ms\<close> being \<open>Math.round(end - start)\<close> of the monotonic clock. The
  body is absent (\<open>NoBody\<close>), or its first \<open>read\<close> throws (\<open>ReadFails\<close>), yields no
  value (\<open>NoValue\<close>), or yields a chunk, given as the text \<open>TextDecoder\<close> makes of it.
\<close>

datatype body = NoBody | ReadFails | NoValue | Chunk jstring

datatype outcome = Throws | Response bool nat body

text \<open>
  \<open>/RESOLUTION=(\d+)x(\d+)/g\<close> at the head of the text: the digits of the second
  group and the rest after the match.
\<close>

definition matchResolution :: "jstring \<Rightarrow> (jstring \<times> jstring) option" where
  "matchResolution s =
     (if startsWith (js ''RESOLUTION='') s then
        (let r1 = drop 11 s;
             w = takeWhile isDigit r1;
             r2 = dropWhile isDigit r1
         in if w = [] then None
            else (case r2 of
                    [] \<Rightarrow> None
                  | x # r3 \<Rightarrow>
                      if x = 120 \<and> takeWhile isDigit r3 \<noteq> []
                      then Some (takeWhile isDigit r3, dropWhile isDigit r3)
                      else None))
      else None)"

lemma matchResolution_length:
  assumes "matchResolution s = Some (h, r)"
  shows "length r < length s"
proof -
  define r2 where "r2 = dropWhile isDigit (drop 11 s)"
  have "length r2 \<le> length s"
    unfolding r2_def by (intro length_dropWhile_trans) simp
  moreover from assms have "\<exists>x r3. r2 = x # r3 \<and> r = dropWhile isDigit r3"
    by (auto simp: matchResolution_def Let_def r2_def split: if_splits list.splits)
  then obtain x r3 where "r2 = x # r3" and "r = dropWhile isDigit r3"
    by blast
  then have "length r < length r2"
    using length_dropWhile_le[of isDigit r3] by simp
  ultimately show ?thesis by linarith
qed

text \<open>\<open>[...text.matchAll(re)].map(m => m[2])\<close>\<close>

function heights :: "jstring \<Rightarrow> jstring list" where
  "heights [] = []"
| "heights (x # xs) =
     (case matchResolution (x # xs) of
        Some (h, r) \<Rightarrow> h # heights r
      | None \<Rightarrow> heights xs)"
  by pat_completeness auto
termination
  by (relation "measure length") (auto dest: matchResolution_length)

text \<open>\<open>parseInt(d, 10)\<close> on a run of digits.\<close>

definition parseInt :: "jstring \<Rightarrow> int" where
  "parseInt d = foldl (\<lambda>a c. a * 10 + (c - 48)) 0 d"

text \<open>The decimal numeral of a number that is not negative.\<close>

function toDecimal :: "int \<Rightarrow> jstring" where
  "toDecimal n = (if n < 10 then [48 + n] else toDecimal (n div 10) @ [48 + n mod 10])"
  by pat_completeness auto
termination
  by (relation "measure nat") auto

declare toDecimal.simps [simp del]

definition maxOf :: "int list \<Rightarrow> int" where
  "maxOf xs = foldl max (hd xs) (tl xs)"

definition sniffResolution :: "jstring \<Rightarrow> jstring option" where
  "sniffResolution text =
     (let matches = heights text
      in if length matches > 0 then
           (let maxHeight = maxOf (map parseInt matches)
            in Some (if maxHeight \<ge> 1080 then js ''1080P''
                     else if maxHeight \<ge> 720 then js ''720P''
                     else toDecimal maxHeight @ js ''P''))
         else None)"

definition checkSource :: "task \<Rightarrow> outcome \<Rightarrow> result" where
  "checkSource t out =
     (case out of
        Throws \<Rightarrow>
          \<lparr>r_channelId = channelId t, r_sourceId = sourceId t, r_url = t_url t,
           r_status = Error, r_latency = None, r_resolution = None\<rparr>
      | Response ok ms b \<Rightarrow>
          (let resolution =
                 (if ok then
                    (case b of Chunk text \<Rightarrow> sniffResolution text | _ \<Rightarrow> None)
                  else None)
           in \<lparr>r_channelId = channelId t, r_sourceId = sourceId t, r_url = t_url t,
               r_status = (if ok then Online else Offline),
               r_latency = (if ok then Some (int ms) else None),
               r_resolution = resolution\<rparr>))"

section \<open>The probe scheduler\<close>

definition BATCH_SIZE :: nat where
  "BATCH_SIZE = 12"

fun findIndex :: "('a \<Rightarrow> bool) \<Rightarrow> 'a list \<Rightarrow> nat option" where
  "findIndex P [] = None"
| "findIndex P (x # xs) = (if P x then Some 0 else map_option Suc (findIndex P xs))"

definition tasksOf :: "channel list \<Rightarrow> task list" where
  "tasksOf targetChannels =
     concat (map (\<lambda>ch. map (\<lambda>src. \<lparr>channelId = id_c ch, sourceId = id_s src,
                                      t_url = url src\<rparr>) (sources ch))
                 targetChannels)"

text \<open>The first state update: every task's source is set to \<open>checking\<close>.\<close>

definition markOne :: "task \<Rightarrow> channel list \<Rightarrow> channel list" where
  "markOne t next =
     (case findIndex (\<lambda>c. id_c c = channelId t) next of
        None \<Rightarrow> next
      | Some chIndex \<Rightarrow>
          (let ch = next ! chIndex
           in case findIndex (\<lambda>s. id_s s = sourceId t) (sources ch) of
                None \<Rightarrow> next
              | Some srcIndex \<Rightarrow>
                  (let newSources = (sources ch)
                         [srcIndex := (sources ch ! srcIndex)\<lparr>status := Checking,
                                                             latency := None\<rparr>]
                   in next[chIndex := ch\<lparr>sources := newSources\<rparr>])))"

definition markChecking :: "task list \<Rightarrow> channel list \<Rightarrow> channel list" where
  "markChecking tasks prev = fold markOne tasks prev"

definition getScore :: "source \<Rightarrow> int" where
  "getScore s =
     (if status s = Online then 100000 - (case latency s of None \<Rightarrow> 0 | Some l \<Rightarrow> l)
      else if status s = Error then 50000
      else if status s = Checking then 100
      else 0)"

definition sortSources :: "source list \<Rightarrow> source list" where
  "sortSources newSources = sortBy (\<lambda>a b. getScore b - getScore a) newSources"

text \<open>The update after a batch, for one result; \<open>newSources[0]\<close> of an empty array is \<open>undefined\<close>.\<close>

definition writeBackOne :: "result \<Rightarrow> channel list \<Rightarrow> channel list" where
  "writeBackOne res next =
     (case findIndex (\<lambda>c. id_c c = r_channelId res) next of
        None \<Rightarrow> next
      | Some chIndex \<Rightarrow>
          (let ch = next ! chIndex
           in case findIndex (\<lambda>s. id_s s = r_sourceId res) (sources ch) of
                None \<Rightarrow> next
              | Some srcIndex \<Rightarrow>
                  (let newSources = sortSources ((sources ch)
                         [srcIndex := (sources ch ! srcIndex)\<lparr>status := r_status res,
                            latency := r_latency res, resolution := r_resolution res\<rparr>])
                   in next[chIndex := ch\<lparr>sources := newSources,
                        bestSource := (case newSources of [] \<Rightarrow> None | s # _ \<Rightarrow> Some s)\<rparr>])))"

definition writeBack :: "result list \<Rightarrow> channel list \<Rightarrow> channel list" where
  "writeBack results prev = fold writeBackOne results prev"

text \<open>
  The loop over the batches. \<open>net k\<close> is what the network does to the \<open>k\<close>-th task.
  The value is the list of the catalog's states, one after each batch.
\<close>

function batches :: "(nat \<Rightarrow> outcome) \<Rightarrow> task list \<Rightarrow> nat \<Rightarrow> channel list \<Rightarrow> channel list list" where
  "batches net tasks i prev =
     (if i < length tasks then
        (let batch = take BATCH_SIZE (drop i tasks);
             results = map (\<lambda>(k, t). checkSource t (net k)) (zip [i ..< i + length batch] batch);
             next = writeBack results prev
         in next # batches net tasks (i + BATCH_SIZE) next)
      else [])"
  by pat_completeness auto
termination
  by (relation "measure (\<lambda>(net, tasks, i, prev). length tasks - i)")
     (auto simp: BATCH_SIZE_def)

declare batches.simps [simp del]

text \<open>
  \<open>runCheck\<close>: the states of the catalog the cycle goes through, the one after the
  marking first; none when a cycle is running already or there is no target.
\<close>

definition runCheck ::
  "(nat \<Rightarrow> outcome) \<Rightarrow> bool \<Rightarrow> channel list \<Rightarrow> channel list \<Rightarrow> channel list list" where
  "runCheck net isChecking targetChannels prev =
     (if isChecking \<or> targetChannels = [] then []
      else (let tasks = tasksOf targetChannels;
                marked = markChecking tasks prev
            in marked # batches net tasks 0 marked))"

section \<open>Notions used in the statements\<close>

text \<open>
  A function that is \<open>toUpperCase\<close> as far as ECMAScript fixes it on Basic Latin
  strings.
\<close>

definition upperOnBasicLatin :: "(jstring \<Rightarrow> jstring) \<Rightarrow> bool" where
  "upperOnBasicLatin up = (\<forall>s. isBasicLatin s \<longrightarrow> up s = upperBasicLatin s)"

text \<open>
  The calls of \<open>addChannelToMap\<close> that the lines of a document make, in order: the
  records the parser emits.
\<close>

fun parseLines :: "jstring list \<Rightarrow> pending \<Rightarrow> rec3 list" where
  "parseLines [] pend = []"
| "parseLines (l # ls) pend =
     (case parseLine l pend of
        (None, pend') \<Rightarrow> parseLines ls pend'
      | (Some r, pend') \<Rightarrow> r # parseLines ls pend')"

definition recordsOf :: "jstring \<Rightarrow> rec3 list" where
  "recordsOf content = parseLines (split 10 content) ([], [])"

definition addRecord ::
  "(jstring \<Rightarrow> jstring) \<Rightarrow> (nat \<Rightarrow> jstring) \<Rightarrow> category \<Rightarrow> rec3 \<Rightarrow> agg \<Rightarrow> agg" where
  "addRecord up gen cat r st = addChannelToMap up gen (fst r) (fst (snd r)) (snd (snd r)) cat st"

definition newSource :: "jstring \<Rightarrow> jstring \<Rightarrow> source" where
  "newSource i u = \<lparr>id_s = i, url = u, status = Idle, latency = None, resolution = None\<rparr>"

definition keyOf :: "(jstring \<Rightarrow> jstring) \<Rightarrow> jstring \<Rightarrow> jstring" where
  "keyOf up nm = normalizeName up (trim nm)"

text \<open>A record that the map has taken in already: adding it changes nothing.\<close>

definition absorbed :: "(jstring \<Rightarrow> jstring) \<Rightarrow> rec3 \<Rightarrow> agg \<Rightarrow> bool" where
  "absorbed up r st =
     (length (keyOf up (fst r)) < 2
      \<or> (\<exists>ch. map_of (channelMap st) (keyOf up (fst r)) = Some ch
              \<and> snd (snd r) \<in> url ` set (sources ch)))"

definition srcOf :: "int \<Rightarrow> status \<Rightarrow> int option \<Rightarrow> source" where
  "srcOf i st l = \<lparr>id_s = [i], url = [i], status = st, latency = l, resolution = None\<rparr>"

text \<open>
  The kinds of line, read after trimming. A metadata line begins with \<open>#EXTINF:\<close>.
  \<open>bareUrlLine\<close> follows the words of the specification: a line with no comma, not
  beginning with the comment marker \<open>#\<close>, and recognized by one of the scheme
  prefixes, HTTP, RTMP or P2P. \<open>m3uUrlLine\<close> is what the third branch of the loop
  accepts: the same with the prefixes \<open>http\<close> and \<open>rtmp\<close> only.
\<close>

definition metadataLine :: "jstring \<Rightarrow> bool" where
  "metadataLine l = startsWith (js ''#EXTINF:'') (trim l)"

definition bareUrlLine :: "jstring \<Rightarrow> bool" where
  "bareUrlLine l =
     (let line = trim l
      in \<not> includes_str [44] line \<and> \<not> startsWith [35] line \<and> looksLikeUrl line)"

definition m3uUrlLine :: "jstring \<Rightarrow> bool" where
  "m3uUrlLine l =
     (let line = trim l
      in \<not> includes_str [44] line \<and> \<not> startsWith [35] line
         \<and> (startsWith (js ''http'') line \<or> startsWith (js ''rtmp'') line))"

text \<open>\<open>currentName\<close> and \<open>currentGroup\<close> after a run of lines.\<close>

definition pendingAfter :: "jstring list \<Rightarrow> pending \<Rightarrow> pending" where
  "pendingAfter ls pend = fold (\<lambda>l p. snd (parseLine l p)) ls pend"


text \<open>
  The latency of a source is in order: present only with the status \<open>online\<close>, and
  then not negative. A catalog is in order when this holds of every source of every
  channel, the one kept as \<open>bestSource\<close> included; a result of a probe likewise.
\<close>

definition latencyOK :: "source \<Rightarrow> bool" where
  "latencyOK s = (case latency s of None \<Rightarrow> True | Some l \<Rightarrow> status s = Online \<and> 0 \<le> l)"

definition channelOK :: "channel \<Rightarrow> bool" where
  "channelOK ch =
     (list_all latencyOK (sources ch)
      \<and> (case bestSource ch of None \<Rightarrow> True | Some b \<Rightarrow> latencyOK b))"

definition catalogOK :: "channel list \<Rightarrow> bool" where
  "catalogOK cs = list_all channelOK cs"

definition resultOK :: "result \<Rightarrow> bool" where
  "resultOK res =
     (case r_latency res of None \<Rightarrow> True | Some l \<Rightarrow> r_status res = Online \<and> 0 \<le> l)"

text \<open>A channel as the aggregator leaves it: nothing probed yet.\<close>

definition freshChannel :: "channel \<Rightarrow> bool" where
  "freshChannel ch =
     (bestSource ch = None
      \<and> list_all (\<lambda>s. status s = Idle \<and> latency s = None \<and> resolution s = None) (sources ch))"

definition freshAgg :: "agg \<Rightarrow> bool" where
  "freshAgg st = list_all (\<lambda>p. freshChannel (snd p)) (channelMap st)"

text \<open>
  The states of the catalog an observer can see: the empty one the application starts
  with, the one the aggregator returns, and every state a check cycle passes through
  from one of these (after the marking, and after each batch).
\<close>

inductive reachable :: "channel list \<Rightarrow> bool" where
  start: "reachable []"
| loaded: "reachable (parseAndAggregate toUpperCase gen localeCompare playlists)"
| checked: "reachable prev \<Longrightarrow> st \<in> set (runCheck net isChecking targetChannels prev)
            \<Longrightarrow> reachable st"

text \<open>\<open>bestSource\<close>, when present, is the first of \<open>sources\<close>.\<close>

definition bestIsFirst :: "channel \<Rightarrow> bool" where
  "bestIsFirst ch =
     (case bestSource ch of
        None \<Rightarrow> True
      | Some b \<Rightarrow> (case sources ch of [] \<Rightarrow> False | s # _ \<Rightarrow> b = s))"

text \<open>
  A small catalog to evaluate the scheduler on: one channel with two addresses, a
  first cycle in which the first address answers in 300 ms with a 720-line stream and
  the second cannot be reached, and the catalog that cycle leaves.
\<close>

definition exampleGen :: "nat \<Rightarrow> jstring" where
  "exampleGen n = [int n]"

definition exampleCatalog :: "channel list" where
  "exampleCatalog =
     parseAndAggregate upperBasicLatin exampleGen (\<lambda>a b. 0)
       [(js ''CCTV1,http://a'' @ [10] @ js ''CCTV 1,http://b'', China)]"

definition exampleNet :: "nat \<Rightarrow> outcome" where
  "exampleNet k =
     (if k = 0 then Response True 300 (Chunk (js ''#EXT-X-STREAM-INF:RESOLUTION=1280x720''))
      else Throws)"

definition checkedCatalog :: "channel list" where
  "checkedCatalog = last (runCheck exampleNet False exampleCatalog exampleCatalog)"

text \<open>The catalog when a second cycle has marked the sources and probed nothing yet.\<close>

definition markedAgain :: "channel list" where
  "markedAgain = hd (runCheck (\<lambda>k. Throws) False checkedCatalog checkedCatalog)"

text \<open>
  Identifiers that identify: no two channels of the catalog with one \<open>id\<close>, and no two
  sources of a channel with one \<open>id\<close>. \<open>sourcesAt\<close> collects the sources that a pair
  of a channel's and a source's identifier names; \<open>writeFields\<close> is what the
  write-back does to the source it finds.
\<close>

definition wellIdentified :: "channel list \<Rightarrow> bool" where
  "wellIdentified cs =
     (distinct (map id_c cs) \<and> list_all (\<lambda>ch. distinct (map id_s (sources ch))) cs)"

definition sourcesAt :: "channel list \<Rightarrow> jstring \<Rightarrow> jstring \<Rightarrow> source list" where
  "sourcesAt cs cid sid =
     concat (map (\<lambda>ch. filter (\<lambda>s. id_s s = sid) (sources ch))
                 (filter (\<lambda>ch. id_c ch = cid) cs))"

definition writeFields :: "result \<Rightarrow> source \<Rightarrow> source" where
  "writeFields res s =
     s\<lparr>status := r_status res, latency := r_latency res, resolution := r_resolution res\<rparr>"

text \<open>
  What the marking does to the source it finds, and the pair of identifiers that a
  task and a result carry.
\<close>

definition markFields :: "source \<Rightarrow> source" where
  "markFields s = s\<lparr>status := Checking, latency := None\<rparr>"

definition resultKey :: "result \<Rightarrow> jstring \<times> jstring" where
  "resultKey r = (r_channelId r, r_sourceId r)"

definition taskKey :: "task \<Rightarrow> jstring \<times> jstring" where
  "taskKey t = (channelId t, sourceId t)"

text \<open>
  A catalog of one channel whose two sources carry a label from an earlier cycle, and a
  network where the first probe throws and every other one answers with a body that
  holds no marker.
\<close>

definition labelledCatalog :: "channel list" where
  "labelledCatalog =
     [\<lparr>id_c = [0], name = js ''CCTV1'', group_c = js ''Other'', category = China,
       sources = [\<lparr>id_s = [1], url = js ''http://a'', status = Online, latency = Some 300,
                   resolution = Some (js ''720P'')\<rparr>,
                  \<lparr>id_s = [2], url = js ''http://b'', status = Online, latency = Some 400,
                   resolution = Some (js ''1080P'')\<rparr>],
       bestSource = None\<rparr>]"

definition unlabelledNet :: "nat \<Rightarrow> outcome" where
  "unlabelledNet k = (if k = 0 then Throws else Response True 120 (Chunk (js ''#EXTM3U'')))"

text \<open>
  The aggregator's map when the identifiers drawn so far are the first \<open>idCount\<close>
  values of the generator: every channel's and every source's identifier is one of
  them, no two channels share one, and no two sources of a channel do.
\<close>

definition identifiedChannel :: "(nat \<Rightarrow> jstring) \<Rightarrow> nat \<Rightarrow> channel \<Rightarrow> bool" where
  "identifiedChannel gen n ch =
     (id_c ch \<in> gen ` {..< n} \<and> distinct (map id_s (sources ch))
      \<and> id_s ` set (sources ch) \<subseteq> gen ` {..< n})"

definition identifiedAgg :: "(nat \<Rightarrow> jstring) \<Rightarrow> agg \<Rightarrow> bool" where
  "identifiedAgg gen st =
     (distinct (map (\<lambda>p. id_c (snd p)) (channelMap st))
      \<and> (\<forall>p \<in> set (channelMap st). identifiedChannel gen (idCount st) (snd p)))"

section \<open>The normalizer on the names of the first channel\<close>

lemma normalizeName_too_short:
  "length (normalizeName up (trim nm)) < 2 \<Longrightarrow> addChannelToMap up gen nm grp u cat st = st"
  by (simp add: addChannelToMap_def Let_def)

lemma normalizeName_basicLatin:
  assumes "upperOnBasicLatin up" and "isBasicLatin nm"
  shows "normalizeName up nm = normalizeName upperBasicLatin nm"
  using assms by (simp add: normalizeName_def upperOnBasicLatin_def)

lemma upperOnBasicLatin_self: "upperOnBasicLatin upperBasicLatin"
  by (simp add: upperOnBasicLatin_def)

text \<open>
  C1. For every function that is \<open>toUpperCase\<close> on Basic Latin strings: the names
  \<open>CCTV1\<close>, \<open>CCTV 1\<close>, \<open>CCTV-1\<close> and \<open>CCTV-1 [IPv6] HD\<close> have one key,
  \<open>CCTV-1\<close>. The keys of the empty name and of \<open>A\<close> are shorter than two code
  units, and \<open>addChannelToMap\<close> leaves the map as it is for them, whatever the group,
  the address, the category and the map.
\<close>

theorem C1_normalize_examples:
  assumes "upperOnBasicLatin up"
  shows "normalizeName up (js ''CCTV1'') = js ''CCTV-1''
   \<and> normalizeName up (js ''CCTV 1'') = js ''CCTV-1''
   \<and> normalizeName up (js ''CCTV-1'') = js ''CCTV-1''
   \<and> normalizeName up (js ''CCTV-1 [IPv6] HD'') = js ''CCTV-1''
   \<and> length (normalizeName up []) < 2
   \<and> length (normalizeName up (js ''A'')) < 2
   \<and> addChannelToMap up gen [] grp u cat st = st
   \<and> addChannelToMap up gen (js ''A'') grp u cat st = st"
proof -
  have b: "isBasicLatin (js ''CCTV1'')" "isBasicLatin (js ''CCTV 1'')" "isBasicLatin (js ''CCTV-1'')"
    "isBasicLatin (js ''CCTV-1 [IPv6] HD'')" "isBasicLatin []" "isBasicLatin (js ''A'')"
    "isBasicLatin (trim [])" "isBasicLatin (trim (js ''A''))"
    by code_simp+
  note n = b[THEN normalizeName_basicLatin[OF assms]]
  have "normalizeName upperBasicLatin (js ''CCTV1'') = js ''CCTV-1''" by code_simp
  moreover have "normalizeName upperBasicLatin (js ''CCTV 1'') = js ''CCTV-1''" by code_simp
  moreover have "normalizeName upperBasicLatin (js ''CCTV-1'') = js ''CCTV-1''" by code_simp
  moreover have "normalizeName upperBasicLatin (js ''CCTV-1 [IPv6] HD'') = js ''CCTV-1''" by code_simp
  moreover have "length (normalizeName upperBasicLatin []) < 2" by code_simp
  moreover have "length (normalizeName upperBasicLatin (js ''A'')) < 2" by code_simp
  moreover have e: "length (normalizeName upperBasicLatin (trim [])) < 2" by code_simp
  moreover have a: "length (normalizeName upperBasicLatin (trim (js ''A''))) < 2" by code_simp
  moreover have "addChannelToMap up gen [] grp u cat st = st"
    by (rule normalizeName_too_short) (simp only: n e)
  moreover have "addChannelToMap up gen (js ''A'') grp u cat st = st"
    by (rule normalizeName_too_short) (simp only: n a)
  ultimately show ?thesis by (simp only: n simp_thms)
qed

theorem C1_normalize_examples_witness:
  "normalizeName upperBasicLatin (js ''CCTV1'') = js ''CCTV-1''
   \<and> normalizeName upperBasicLatin (js ''CCTV 1'') = js ''CCTV-1''
   \<and> normalizeName upperBasicLatin (js ''CCTV-1'') = js ''CCTV-1''
   \<and> normalizeName upperBasicLatin (js ''CCTV-1 [IPv6] HD'') = js ''CCTV-1''
   \<and> length (normalizeName upperBasicLatin []) < 2
   \<and> length (normalizeName upperBasicLatin (js ''A'')) < 2
   \<and> addChannelToMap upperBasicLatin exampleGen [] (js ''News'') (js ''http://a'') China
         \<lparr>channelMap = [], idCount = 0\<rparr> = \<lparr>channelMap = [], idCount = 0\<rparr>
   \<and> addChannelToMap upperBasicLatin exampleGen (js ''A'') (js ''News'') (js ''http://a'') China
         \<lparr>channelMap = [], idCount = 0\<rparr> = \<lparr>channelMap = [], idCount = 0\<rparr>"
  using C1_normalize_examples[OF upperOnBasicLatin_self, of exampleGen "js ''News''"
      "js ''http://a''" China "\<lparr>channelMap = [], idCount = 0\<rparr>"]
  by simp

section \<open>The ranking of a channel's sources\<close>

lemma insertBy_score:
  "insertBy (\<lambda>a b. getScore b - getScore a) x ys = insort_key (\<lambda>s. - getScore s) x ys"
  by (induction ys) auto

lemma sortSources_sort_key: "sortSources xs = sort_key (\<lambda>s. - getScore s) xs"
  by (induction xs) (simp_all add: sortSources_def sortBy_def sort_key_def insertBy_score)

lemma sortSources_mset: "mset (sortSources xs) = mset xs"
  by (simp add: sortSources_sort_key)

lemma sortSources_set: "set (sortSources xs) = set xs"
  by (simp add: sortSources_sort_key)

lemma sortSources_length: "length (sortSources xs) = length xs"
  by (simp add: sortSources_sort_key)

lemma sortSources_descending: "sorted_wrt (\<lambda>a b. getScore b \<le> getScore a) (sortSources xs)"
proof -
  have "sorted (map (\<lambda>s. - getScore s) (sortSources xs))"
    by (simp add: sortSources_sort_key)
  then show ?thesis
    by (simp add: sorted_map sorted_wrt_iff_nth_less)
qed

lemma filter_single:
  assumes "mset ys = {#a, b, c, d#}" and "filter_mset P {#a, b, c, d#} = {#k#}"
  shows "filter P ys = [k]"
proof -
  have "mset (filter P ys) = {#k#}"
    using assms by (simp flip: assms(1))
  then show ?thesis by (simp only: mset_single_iff)
qed

lemma sortSources_four:
  assumes "status a = Online" "latency a = Some 300" "status b = Error"
    "status c = Checking" "status d = Offline" "mset ys = {#a, b, c, d#}"
  shows "sortSources ys = [a, b, c, d]"
proof -
  have sc: "getScore a = 99700" "getScore b = 50000" "getScore c = 100" "getScore d = 0"
    using assms by (simp_all add: getScore_def)
  have "sort_key (\<lambda>s. - getScore s) ys = [a, b, c, d]"
  proof (rule properties_for_sort_key)
    show "mset [a, b, c, d] = mset ys" using assms(6) by simp
    show "sorted (map (\<lambda>s. - getScore s) [a, b, c, d])" by (simp add: sc)
    fix k assume "k \<in> set [a, b, c, d]"
    then show "filter (\<lambda>x. - getScore k = - getScore x) [a, b, c, d]
             = filter (\<lambda>x. - getScore k = - getScore x) ys"
      using filter_single[OF assms(6), of "\<lambda>x. - getScore k = - getScore x" k]
      by (auto simp: sc)
  qed
  then show ?thesis by (simp add: sortSources_sort_key)
qed

section \<open>The aggregator: merging and repeated documents\<close>

lemma fold_processLine:
  "snd (fold (processLine up gen cat) ls (pend, st)) = fold (addRecord up gen cat) (parseLines ls pend) st"
proof (induction ls arbitrary: pend st)
  case Nil
  then show ?case by simp
next
  case (Cons l ls)
  obtain r pend' where p: "parseLine l pend = (r, pend')" by (cases "parseLine l pend")
  show ?case
  proof (cases r)
    case None
    with p Cons show ?thesis by (simp add: processLine_def)
  next
    case (Some a)
    obtain nm grp u where a: "a = (nm, grp, u)" by (cases a)
    with p Some Cons show ?thesis by (simp add: processLine_def addRecord_def)
  qed
qed

lemma processPlaylist_records:
  "processPlaylist up gen (content, cat) st = fold (addRecord up gen cat) (recordsOf content) st"
  by (simp add: processPlaylist_def recordsOf_def fold_processLine)

lemma map_of_mapSet: "map_of (mapSet k v m) k' = (if k' = k then Some v else map_of m k')"
  by (induction m) auto

lemma mapSet_absent: "map_of m k = None \<Longrightarrow> mapSet k v m = m @ [(k, v)]"
  by (induction m) (auto split: if_splits)

lemma mapSet_last: "map_of m k = None \<Longrightarrow> mapSet k v' (m @ [(k, v)]) = m @ [(k, v')]"
  by (induction m) (auto split: if_splits)

lemma addChannelToMap_new:
  assumes "2 \<le> length (keyOf up nm)" and "map_of (channelMap st) (keyOf up nm) = None"
  shows "addChannelToMap up gen nm grp u cat st =
     \<lparr>channelMap = channelMap st @
        [(keyOf up nm, \<lparr>id_c = gen (idCount st), name = trim nm,
            group_c = (if grp = [] then js ''Other'' else grp), category = cat,
            sources = [newSource (gen (idCount st + 1)) u], bestSource = None\<rparr>)],
      idCount = idCount st + 2\<rparr>"
proof -
  define ch0 where "ch0 = \<lparr>id_c = gen (idCount st), name = trim nm,
      group_c = (if grp = [] then js ''Other'' else grp), category = cat,
      sources = [], bestSource = None\<rparr>"
  define st1 where "st1 = st\<lparr>channelMap := mapSet (keyOf up nm) ch0 (channelMap st),
      idCount := idCount st + 1\<rparr>"
  have m1: "map_of (channelMap st1) (keyOf up nm) = Some ch0"
    by (simp add: st1_def map_of_mapSet)
  have "addChannelToMap up gen nm grp u cat st =
      st1\<lparr>channelMap := mapSet (keyOf up nm)
            (ch0\<lparr>sources := sources ch0 @ [newSource (gen (idCount st1)) u]\<rparr>) (channelMap st1),
          idCount := idCount st1 + 1\<rparr>"
    using assms m1 unfolding addChannelToMap_def Let_def keyOf_def[symmetric] st1_def[symmetric] ch0_def[symmetric] newSource_def[symmetric]
    by (simp add: ch0_def)
  also have "\<dots> = \<lparr>channelMap = channelMap st @
        [(keyOf up nm, ch0\<lparr>sources := [newSource (gen (idCount st + 1)) u]\<rparr>)],
      idCount = idCount st + 2\<rparr>"
    using assms(2) by (cases st) (simp add: st1_def mapSet_absent mapSet_last ch0_def)
  finally show ?thesis by (simp add: ch0_def)
qed

lemma addChannelToMap_old:
  assumes "2 \<le> length (keyOf up nm)" and "map_of (channelMap st) (keyOf up nm) = Some ch"
  shows "addChannelToMap up gen nm grp u cat st =
     (if u \<in> url ` set (sources ch) then st
      else st\<lparr>channelMap := mapSet (keyOf up nm)
                  (ch\<lparr>sources := sources ch @ [newSource (gen (idCount st)) u]\<rparr>) (channelMap st),
              idCount := idCount st + 1\<rparr>)"
  using assms
  by (auto simp: addChannelToMap_def Let_def keyOf_def newSource_def list_ex_iff)

lemma addRecord_absorbed_id: "absorbed up r st \<Longrightarrow> addRecord up gen cat r st = st"
proof (cases "length (keyOf up (fst r)) < 2")
  case True
  then show ?thesis
    by (simp add: addRecord_def normalizeName_too_short keyOf_def)
next
  case False
  assume "absorbed up r st"
  with False obtain ch where "map_of (channelMap st) (keyOf up (fst r)) = Some ch"
    and "snd (snd r) \<in> url ` set (sources ch)"
    by (auto simp: absorbed_def)
  with False show ?thesis
    by (simp add: addRecord_def addChannelToMap_old)
qed

lemma addRecord_absorbs: "absorbed up r (addRecord up gen cat r st)"
proof (cases "length (keyOf up (fst r)) < 2")
  case True
  then show ?thesis by (simp add: absorbed_def)
next
  case False
  then have k: "2 \<le> length (keyOf up (fst r))" by simp
  show ?thesis
  proof (cases "map_of (channelMap st) (keyOf up (fst r))")
    case None
    show ?thesis
      unfolding addRecord_def addChannelToMap_new[OF k None]
      using None by (simp add: absorbed_def map_add_def newSource_def)
  next
    case (Some ch)
    show ?thesis
      unfolding addRecord_def addChannelToMap_old[OF k Some]
      using Some by (simp add: absorbed_def map_of_mapSet newSource_def)
  qed
qed

lemma addRecord_keeps_absorbed:
  assumes "absorbed up r st"
  shows "absorbed up r (addRecord up gen cat r' st)"
proof (cases "length (keyOf up (fst r')) < 2")
  case True
  with assms show ?thesis
    by (simp add: addRecord_def normalizeName_too_short keyOf_def)
next
  case False
  then have k: "2 \<le> length (keyOf up (fst r'))" by simp
  show ?thesis
  proof (cases "map_of (channelMap st) (keyOf up (fst r'))")
    case None
    show ?thesis
      unfolding addRecord_def addChannelToMap_new[OF k None]
      using None assms by (auto simp: absorbed_def map_add_def split: option.splits)
  next
    case (Some ch)
    show ?thesis
      unfolding addRecord_def addChannelToMap_old[OF k Some]
      using Some assms by (auto simp: absorbed_def map_of_mapSet)
  qed
qed

lemma fold_keeps_absorbed:
  "absorbed up r st \<Longrightarrow> absorbed up r (fold (addRecord up gen cat) rs st)"
  by (induction rs arbitrary: st) (simp_all add: addRecord_keeps_absorbed)

lemma fold_absorbs_all:
  "r \<in> set rs \<Longrightarrow> absorbed up r (fold (addRecord up gen cat) rs st)"
proof (induction rs arbitrary: st)
  case Nil
  then show ?case by simp
next
  case (Cons a rs)
  then show ?case
    by (auto simp: addRecord_absorbs fold_keeps_absorbed)
qed

lemma fold_absorbed_id:
  "(\<And>r. r \<in> set rs \<Longrightarrow> absorbed up r st) \<Longrightarrow> fold (addRecord up gen cat) rs st = st"
  by (induction rs) (simp_all add: addRecord_absorbed_id)

lemma processPlaylist_twice:
  "processPlaylist up gen (d, c') (processPlaylist up gen (d, c) st) = processPlaylist up gen (d, c) st"
  unfolding processPlaylist_records
  by (rule fold_absorbed_id) (rule fold_absorbs_all)

lemma aggregate_two_records:
  assumes r1: "recordsOf d1 = [(n1, g1, u1)]" and r2: "recordsOf d2 = [(n2, g2, u2)]"
    and same: "normalizeName up (trim n1) = normalizeName up (trim n2)"
    and usable: "2 \<le> length (normalizeName up (trim n1))"
    and diff: "u1 \<noteq> u2"
  shows "parseAndAggregate up gen localeCompare [(d1, c1), (d2, c2)] =
     [\<lparr>id_c = gen 0, name = trim n1,
       group_c = (if g1 = [] then js ''Other'' else g1), category = c1,
       sources = [newSource (gen 1) u1, newSource (gen 2) u2], bestSource = None\<rparr>]"
proof -
  define st0 :: agg where "st0 = \<lparr>channelMap = [], idCount = 0\<rparr>"
  define ch1 where "ch1 = \<lparr>id_c = gen 0, name = trim n1,
       group_c = (if g1 = [] then js ''Other'' else g1), category = c1,
       sources = [newSource (gen 1) u1], bestSource = None\<rparr>"
  have k1: "2 \<le> length (keyOf up n1)" and k2: "2 \<le> length (keyOf up n2)"
    and kk: "keyOf up n2 = keyOf up n1"
    using same usable by (simp_all add: keyOf_def)
  have s1: "processPlaylist up gen (d1, c1) st0 = \<lparr>channelMap = [(keyOf up n1, ch1)], idCount = 2\<rparr>"
    using addChannelToMap_new[OF k1, of st0 gen g1 u1 c1]
    by (simp add: processPlaylist_records r1 addRecord_def st0_def ch1_def)
  have "processPlaylist up gen (d2, c2) \<lparr>channelMap = [(keyOf up n1, ch1)], idCount = 2\<rparr>
      = \<lparr>channelMap = [(keyOf up n1, ch1\<lparr>sources := [newSource (gen 1) u1, newSource (gen 2) u2]\<rparr>)],
         idCount = 3\<rparr>"
    using addChannelToMap_old[OF k2, of "\<lparr>channelMap = [(keyOf up n1, ch1)], idCount = 2\<rparr>" ch1 gen g2 u2 c2] diff
    by (simp add: processPlaylist_records r2 addRecord_def kk ch1_def newSource_def)
  with s1 show ?thesis
    by (simp add: parseAndAggregate_def st0_def sortBy_def ch1_def)
qed

lemma aggregate_one_record:
  assumes r: "recordsOf d = [(n, g, u)]"
    and usable: "2 \<le> length (normalizeName up (trim n))"
  shows "parseAndAggregate up gen localeCompare [(d, c)] =
     [\<lparr>id_c = gen 0, name = trim n,
       group_c = (if g = [] then js ''Other'' else g), category = c,
       sources = [newSource (gen 1) u], bestSource = None\<rparr>]"
proof -
  define st0 :: agg where "st0 = \<lparr>channelMap = [], idCount = 0\<rparr>"
  have k: "2 \<le> length (keyOf up n)"
    using usable by (simp add: keyOf_def)
  have "processPlaylist up gen (d, c) st0 =
      \<lparr>channelMap = [(keyOf up n, \<lparr>id_c = gen 0, name = trim n,
           group_c = (if g = [] then js ''Other'' else g), category = c,
           sources = [newSource (gen 1) u], bestSource = None\<rparr>)], idCount = 2\<rparr>"
    using addChannelToMap_new[OF k, of st0 gen g u c]
    by (simp add: processPlaylist_records r addRecord_def st0_def)
  then show ?thesis
    by (simp add: parseAndAggregate_def st0_def sortBy_def)
qed

text \<open>
  C3, as stated, fails where the common key is shorter than two code units: the
  documents \<open>A,http://a\<close> and \<open>a,http://b\<close> hold one record each, the names have
  the key \<open>A\<close>, the addresses differ, and the catalog is empty.
\<close>

theorem C3_short_key_counterexample:
  "recordsOf (js ''A,http://a'') = [(js ''A'', js ''Other'', js ''http://a'')]
   \<and> recordsOf (js ''a,http://b'') = [(js ''a'', js ''Other'', js ''http://b'')]
   \<and> normalizeName upperBasicLatin (trim (js ''A'')) = normalizeName upperBasicLatin (trim (js ''a''))
   \<and> js ''http://a'' \<noteq> js ''http://b''
   \<and> parseAndAggregate upperBasicLatin (\<lambda>n. [int n]) (\<lambda>a b. 0)
         [(js ''A,http://a'', China), (js ''a,http://b'', China)] = []"
  by code_simp

text \<open>
  C3, amended. Two documents that hold one record each, the names with one key of
  at least two code units and the addresses different, give exactly one channel with
  exactly two sources, in the order of the documents; its name is the first record's
  trimmed name, its category the first document's, and its group the first record's
  group, or \<open>Other\<close> when that is empty.
\<close>

theorem C3_merge_two_documents:
  assumes "recordsOf d1 = [(n1, g1, u1)]" and "recordsOf d2 = [(n2, g2, u2)]"
    and "normalizeName up (trim n1) = normalizeName up (trim n2)"
    and "2 \<le> length (normalizeName up (trim n1))"
    and "u1 \<noteq> u2"
  shows "parseAndAggregate up gen localeCompare [(d1, c1), (d2, c2)] =
     [\<lparr>id_c = gen 0, name = trim n1,
       group_c = (if g1 = [] then js ''Other'' else g1), category = c1,
       sources = [\<lparr>id_s = gen 1, url = u1, status = Idle, latency = None, resolution = None\<rparr>,
                  \<lparr>id_s = gen 2, url = u2, status = Idle, latency = None, resolution = None\<rparr>],
       bestSource = None\<rparr>]"
  using aggregate_two_records[OF assms] by (simp add: newSource_def)

theorem C3_merge_two_documents_witness:
  "parseAndAggregate upperBasicLatin (\<lambda>n. [int n]) (\<lambda>a b. 0)
     [(js ''CCTV1,http://a'', China), (js ''#EXTINF:-1,CCTV 1 HD'' @ [10] @ js ''http://b'', International)] =
     [\<lparr>id_c = [0], name = js ''CCTV1'', group_c = js ''Other'', category = China,
       sources = [\<lparr>id_s = [1], url = js ''http://a'', status = Idle, latency = None, resolution = None\<rparr>,
                  \<lparr>id_s = [2], url = js ''http://b'', status = Idle, latency = None, resolution = None\<rparr>],
       bestSource = None\<rparr>]"
proof -
  have h1: "recordsOf (js ''CCTV1,http://a'') = [(js ''CCTV1'', js ''Other'', js ''http://a'')]"
    by code_simp
  have h2: "recordsOf (js ''#EXTINF:-1,CCTV 1 HD'' @ [10] @ js ''http://b'')
      = [(js ''CCTV 1 HD'', js ''Uncategorized'', js ''http://b'')]"
    by code_simp
  have h3: "normalizeName upperBasicLatin (trim (js ''CCTV1'')) = normalizeName upperBasicLatin (trim (js ''CCTV 1 HD''))"
    by code_simp
  have h4: "2 \<le> length (normalizeName upperBasicLatin (trim (js ''CCTV1'')))"
    by code_simp
  have h5: "js ''http://a'' \<noteq> js ''http://b''"
    by code_simp
  have t: "trim (js ''CCTV1'') = js ''CCTV1''"
    by code_simp
  show ?thesis
    using C3_merge_two_documents[OF h1 h2 h3 h4 h5, of "\<lambda>n. [int n]" "\<lambda>a b. 0" China International]
    unfolding t by simp
qed

text \<open>
  C4. Aggregating a document twice gives the catalog that aggregating it once
  gives (also when the second copy comes under another category): the same channels,
  as many, each with the same addresses. A record whose
  address its channel holds already (equal as a string) leaves the map as it is.
\<close>

theorem C4_aggregate_twice:
  "parseAndAggregate up gen localeCompare [(d, c), (d, c')] = parseAndAggregate up gen localeCompare [(d, c)]
   \<and> length (parseAndAggregate up gen localeCompare [(d, c), (d, c')])
       = length (parseAndAggregate up gen localeCompare [(d, c)])
   \<and> map (\<lambda>ch. map url (sources ch)) (parseAndAggregate up gen localeCompare [(d, c), (d, c')])
       = map (\<lambda>ch. map url (sources ch)) (parseAndAggregate up gen localeCompare [(d, c)])
   \<and> (2 \<le> length (normalizeName up (trim nm))
        \<and> map_of (channelMap st) (normalizeName up (trim nm)) = Some ch
        \<and> u \<in> url ` set (sources ch)
       \<longrightarrow> addChannelToMap up gen nm grp u cat st = st)"
proof -
  have "parseAndAggregate up gen localeCompare [(d, c), (d, c')]
      = parseAndAggregate up gen localeCompare [(d, c)]"
    by (simp add: parseAndAggregate_def processPlaylist_twice)
  moreover have "addChannelToMap up gen nm grp u cat st = st"
    if "2 \<le> length (normalizeName up (trim nm))"
      and "map_of (channelMap st) (normalizeName up (trim nm)) = Some ch"
      and "u \<in> url ` set (sources ch)"
    using that addChannelToMap_old[of up nm st ch gen grp u cat] by (simp add: keyOf_def)
  ultimately show ?thesis by simp
qed

theorem C4_aggregate_twice_witness:
  "addChannelToMap upperBasicLatin (\<lambda>n. [int n]) (js ''CCTV 1'') [] (js ''http://a'') International
     \<lparr>channelMap = [(js ''CCTV-1'', \<lparr>id_c = [0], name = js ''CCTV1'', group_c = js ''Other'',
          category = China, sources = [srcOf 7 Idle None\<lparr>url := js ''http://a''\<rparr>],
          bestSource = None\<rparr>)], idCount = 2\<rparr>
   = \<lparr>channelMap = [(js ''CCTV-1'', \<lparr>id_c = [0], name = js ''CCTV1'', group_c = js ''Other'',
          category = China, sources = [srcOf 7 Idle None\<lparr>url := js ''http://a''\<rparr>],
          bestSource = None\<rparr>)], idCount = 2\<rparr>"
proof -
  have k: "normalizeName upperBasicLatin (trim (js ''CCTV 1'')) = js ''CCTV-1''"
    by code_simp
  have l: "2 \<le> length (js ''CCTV-1'')"
    by code_simp
  show ?thesis
    using C4_aggregate_twice[of upperBasicLatin "\<lambda>n. [int n]" "\<lambda>a b. 0" "[]" China International "js ''CCTV 1''"
        "\<lparr>channelMap = [(js ''CCTV-1'', \<lparr>id_c = [0], name = js ''CCTV1'', group_c = js ''Other'',
          category = China, sources = [srcOf 7 Idle None\<lparr>url := js ''http://a''\<rparr>],
          bestSource = None\<rparr>)], idCount = 2\<rparr>"
        "\<lparr>id_c = [0], name = js ''CCTV1'', group_c = js ''Other'',
          category = China, sources = [srcOf 7 Idle None\<lparr>url := js ''http://a''\<rparr>],
          bestSource = None\<rparr>" "js ''http://a''" "[]" International]
    by (simp add: k l)
qed

section \<open>The parser: address lines after a metadata line\<close>

lemma startsWith_Nil: "startsWith p [] = (p = [])"
  by (auto simp: startsWith_def)

lemma startsWith_EXTINF_hash: "startsWith (js ''#EXTINF:'') s \<Longrightarrow> startsWith [35] s"
  by (cases s) (simp_all add: startsWith_def js_def)

lemma parseLine_m3uUrl:
  assumes "m3uUrlLine l"
  shows "parseLine l (cn, cg) = (if cn = [] then None else Some (cn, cg, trim l), (cn, cg))"
proof -
  from assms have c: "\<not> includes_str [44] (trim l)" and h: "\<not> startsWith [35] (trim l)"
    and u: "startsWith (js ''http'') (trim l) \<or> startsWith (js ''rtmp'') (trim l)"
    by (simp_all add: m3uUrlLine_def Let_def)
  from u have ne: "trim l \<noteq> []"
    by (auto simp: startsWith_Nil js_def)
  from h have m: "\<not> startsWith (js ''#EXTINF:'') (trim l)"
    using startsWith_EXTINF_hash by blast
  show ?thesis
    using c h u ne m by (simp add: parseLine_def Let_def)
qed

lemma parseLine_metadata:
  assumes "metadataLine m"
  shows "parseLine m pend = (None, snd (parseLine m ([], [])))"
proof -
  from assms have s: "startsWith (js ''#EXTINF:'') (trim m)"
    by (simp add: metadataLine_def)
  then have "trim m \<noteq> []"
    by (auto simp: startsWith_Nil js_def)
  with s show ?thesis
    by (simp add: parseLine_def Let_def)
qed

lemma parseLine_metadata_value:
  assumes "metadataLine m"
  shows "parseLine m pend =
     (None,
      (case matchAttr (js ''tvg-name='' @ [34]) (trim m) of
         None \<Rightarrow> trim (last (split 44 (trim m)))
       | Some n \<Rightarrow> if n = [] then trim (last (split 44 (trim m))) else n),
      (case matchAttr (js ''group-title='' @ [34]) (trim m) of
         None \<Rightarrow> js ''Uncategorized'' | Some g \<Rightarrow> g))"
proof -
  from assms have s: "startsWith (js ''#EXTINF:'') (trim m)"
    by (simp add: metadataLine_def)
  then have "trim m \<noteq> []"
    by (auto simp: startsWith_Nil js_def)
  with s show ?thesis
    by (simp add: parseLine_def Let_def split: option.splits)
qed

lemma parseLines_m3uUrl:
  assumes "\<forall>l\<in>set urls. m3uUrlLine l" and "cn \<noteq> []"
  shows "parseLines urls (cn, cg) = map (\<lambda>l. (cn, cg, trim l)) urls"
  using assms by (induction urls) (simp_all add: parseLine_m3uUrl)

lemma pendingAfter_m3uUrl:
  assumes "\<forall>l\<in>set urls. m3uUrlLine l"
  shows "pendingAfter urls (cn, cg) = (cn, cg)"
  using assms by (induction urls) (simp_all add: pendingAfter_def parseLine_m3uUrl)

lemma parseLines_append:
  "parseLines (xs @ ys) pend = parseLines xs pend @ parseLines ys (pendingAfter xs pend)"
proof (induction xs arbitrary: pend)
  case Nil
  then show ?case by (simp add: pendingAfter_def)
next
  case (Cons x xs)
  obtain r p where "parseLine x pend = (r, p)" by (cases "parseLine x pend")
  with Cons show ?case
    by (cases r) (simp_all add: pendingAfter_def)
qed

lemma parseLines_metadata_then_urls:
  assumes "metadataLine m" and "\<forall>l\<in>set urls. m3uUrlLine l"
    and "snd (parseLine m ([], [])) = (nm, grp)" and "nm \<noteq> []"
  shows "parseLines (m # urls @ post) pend
       = map (\<lambda>l. (nm, grp, trim l)) urls @ parseLines post (nm, grp)"
proof -
  have "parseLines (m # urls @ post) pend = parseLines (urls @ post) (nm, grp)"
    using parseLine_metadata[OF assms(1), of pend] assms(3) by simp
  also have "\<dots> = parseLines urls (nm, grp) @ parseLines post (pendingAfter urls (nm, grp))"
    by (rule parseLines_append)
  finally show ?thesis
    using assms(2,4) by (simp add: parseLines_m3uUrl pendingAfter_m3uUrl)
qed

text \<open>
  What holds of the lines the third branch accepts. Such a line emits one record, with
  the pending name and group and the trimmed line as the address, when a name is
  pending, and none when no name is pending; it leaves the pending name and group as
  they are. So wherever in a document a metadata line that sets a name is followed by
  \<open>k\<close> such lines, these give \<open>k\<close> records with that line's name and group, and the
  lines after them are still read with that name and group pending. The name a
  metadata line sets is its \<open>tvg-name\<close>, or the text after its last comma when that
  attribute is missing or empty; the group is its \<open>group-title\<close>, or
  \<open>Uncategorized\<close>; the line emits nothing itself.
\<close>

lemma url_lines_after_metadata:
  "(m3uUrlLine l \<longrightarrow>
      parseLine l (cn, cg) = (if cn = [] then None else Some (cn, cg, trim l), (cn, cg)))
   \<and> (split 10 content = pre @ m # urls @ post \<and> metadataLine m
        \<and> (\<forall>l\<in>set urls. m3uUrlLine l)
        \<and> snd (parseLine m ([], [])) = (nm, grp) \<and> nm \<noteq> []
       \<longrightarrow> recordsOf content
           = parseLines pre ([], []) @ map (\<lambda>l. (nm, grp, trim l)) urls
             @ parseLines post (nm, grp))
   \<and> (metadataLine m \<longrightarrow>
        parseLine m pend =
          (None,
           (case matchAttr (js ''tvg-name='' @ [34]) (trim m) of
              None \<Rightarrow> trim (last (split 44 (trim m)))
            | Some n \<Rightarrow> if n = [] then trim (last (split 44 (trim m))) else n),
           (case matchAttr (js ''group-title='' @ [34]) (trim m) of
              None \<Rightarrow> js ''Uncategorized'' | Some g \<Rightarrow> g)))"
proof -
  have "recordsOf content
      = parseLines pre ([], []) @ map (\<lambda>l. (nm, grp, trim l)) urls @ parseLines post (nm, grp)"
    if s: "split 10 content = pre @ m # urls @ post" and "metadataLine m"
      and "\<forall>l\<in>set urls. m3uUrlLine l"
      and "snd (parseLine m ([], [])) = (nm, grp)" and "nm \<noteq> []"
  proof -
    have "recordsOf content = parseLines pre ([], [])
        @ parseLines (m # urls @ post) (pendingAfter pre ([], []))"
      unfolding recordsOf_def s by (rule parseLines_append)
    then show ?thesis
      using parseLines_metadata_then_urls[OF that(2-5)] by simp
  qed
  then show ?thesis
    using parseLine_m3uUrl parseLine_metadata_value by blast
qed

text \<open>
  A bare line of the specification is one the third branch accepts or one with the
  prefix \<open>p2p\<close>; the latter is dropped whatever is pending, and changes nothing.
\<close>

lemma bareUrlLine_cases:
  "bareUrlLine l \<longleftrightarrow>
     m3uUrlLine l
     \<or> (\<not> includes_str [44] (trim l) \<and> \<not> startsWith [35] (trim l)
        \<and> startsWith (js ''p2p'') (trim l))"
  by (auto simp: bareUrlLine_def m3uUrlLine_def looksLikeUrl_def Let_def)

lemma startsWith_p2p_not_http:
  "startsWith (js ''p2p'') s \<Longrightarrow> \<not> startsWith (js ''http'') s \<and> \<not> startsWith (js ''rtmp'') s"
  by (cases s) (auto simp: startsWith_def js_def)

lemma parseLine_bare_p2p:
  assumes "bareUrlLine l" and "\<not> m3uUrlLine l"
  shows "parseLine l pend = (None, pend)"
proof -
  from assms have c: "\<not> includes_str [44] (trim l)" and h: "\<not> startsWith [35] (trim l)"
    and p: "startsWith (js ''p2p'') (trim l)"
    by (auto simp: bareUrlLine_cases)
  from h have m: "\<not> startsWith (js ''#EXTINF:'') (trim l)"
    using startsWith_EXTINF_hash by blast
  from p have "\<not> startsWith (js ''http'') (trim l)" "\<not> startsWith (js ''rtmp'') (trim l)"
    using startsWith_p2p_not_http by blast+
  with c h m show ?thesis
    by (simp add: parseLine_def Let_def)
qed

text \<open>
  C8 on a bare \<open>p2p\<close> line. After the metadata line \<open>#EXTINF:-1,CCTV1\<close>, which
  sets the name \<open>CCTV1\<close>, the bare line \<open>p2p://x\<close> has no comma, does not begin
  with \<open>#\<close> and has a scheme prefix, and the document gives no record, where the
  claim has one with the name \<open>CCTV1\<close>. The same address after \<open>http\<close> gives the
  record, and the inline branch takes the \<open>p2p\<close> address: \<open>CCTV1,p2p://x\<close> gives a
  record. The test of the third branch leaves out the prefix that the second has.
\<close>

theorem C8_bare_p2p_line_dropped:
  "bareUrlLine (js ''p2p://x'')
   \<and> snd (parseLine (js ''#EXTINF:-1,CCTV1'') ([], [])) = (js ''CCTV1'', js ''Uncategorized'')
   \<and> recordsOf (js ''#EXTINF:-1,CCTV1'' @ [10] @ js ''p2p://x'') = []
   \<and> recordsOf (js ''#EXTINF:-1,CCTV1'' @ [10] @ js ''http://x'')
       = [(js ''CCTV1'', js ''Uncategorized'', js ''http://x'')]
   \<and> recordsOf (js ''CCTV1,p2p://x'') = [(js ''CCTV1'', js ''Other'', js ''p2p://x'')]"
  by code_simp

section \<open>The group of a new channel\<close>

lemma parseLine_inline_group:
  assumes "\<not> metadataLine l" and "includes_str [44] (trim l)"
    and "fst (parseLine l pend) = Some (nm, grp, u)"
  shows "grp = js ''Other''"
  using assms
  by (auto simp: parseLine_def Let_def metadataLine_def split: if_splits)

lemma parseLine_metadata_group:
  assumes "metadataLine m"
  shows "snd (snd (parseLine m pend))
       = (case matchAttr (js ''group-title='' @ [34]) (trim m) of
            None \<Rightarrow> js ''Uncategorized'' | Some g \<Rightarrow> g)"
proof -
  from assms have s: "startsWith (js ''#EXTINF:'') (trim m)"
    by (simp add: metadataLine_def)
  then have "trim m \<noteq> []"
    by (auto simp: startsWith_Nil js_def)
  with s show ?thesis
    by (simp add: parseLine_def Let_def)
qed

lemma new_channel_group:
  assumes "2 \<le> length (normalizeName up (trim nm))"
    and "map_of (channelMap st) (normalizeName up (trim nm)) = None"
  shows "map_option group_c
           (map_of (channelMap (addChannelToMap up gen nm grp u cat st)) (normalizeName up (trim nm)))
       = Some (if grp = [] then js ''Other'' else grp)"
  using assms addChannelToMap_new[of up nm st gen grp u cat]
  by (simp add: keyOf_def map_add_def)

text \<open>
  C6, as stated, fails for a metadata line without a \<open>group-title\<close> attribute: the
  channel made from \<open>#EXTINF:-1,Foo TV\<close> and the address after it has the group
  \<open>Uncategorized\<close>.
\<close>

theorem C6_uncategorized_counterexample:
  "metadataLine (js ''#EXTINF:-1,Foo TV'')
   \<and> matchAttr (js ''group-title='' @ [34]) (trim (js ''#EXTINF:-1,Foo TV'')) = None
   \<and> map group_c (parseAndAggregate upperBasicLatin (\<lambda>n. [int n]) (\<lambda>a b. 0)
         [(js ''#EXTINF:-1,Foo TV'' @ [10] @ js ''http://f/1'', China)])
       = [js ''Uncategorized'']
   \<and> js ''Uncategorized'' \<noteq> js ''Other''"
  by code_simp

lemma group_after_metadata:
  assumes "metadataLine m" and "m3uUrlLine l" and "split 10 content = [m, l]"
    and "fst (snd (parseLine m ([], []))) \<noteq> []"
    and "2 \<le> length (normalizeName up (trim (fst (snd (parseLine m ([], []))))))"
  shows "map group_c (parseAndAggregate up gen localeCompare [(content, cat)])
       = [case matchAttr (js ''group-title='' @ [34]) (trim m) of
            None \<Rightarrow> js ''Uncategorized''
          | Some g \<Rightarrow> if g = [] then js ''Other'' else g]"
proof -
  obtain nm grp where p: "snd (parseLine m ([], [])) = (nm, grp)"
    by (cases "snd (parseLine m ([], []))")
  with assms(4,5) have nm: "nm \<noteq> []" and k: "2 \<le> length (normalizeName up (trim nm))"
    by simp_all
  have "parseLines (m # [l] @ []) ([], []) = map (\<lambda>l. (nm, grp, trim l)) [l] @ parseLines [] (nm, grp)"
    using assms(1,2) p nm by (intro parseLines_metadata_then_urls) simp_all
  then have "recordsOf content = [(nm, grp, trim l)]"
    by (simp add: recordsOf_def assms(3))
  from aggregate_one_record[OF this k]
  have "map group_c (parseAndAggregate up gen localeCompare [(content, cat)])
      = [if grp = [] then js ''Other'' else grp]"
    by simp
  moreover have "grp = (case matchAttr (js ''group-title='' @ [34]) (trim m) of
            None \<Rightarrow> js ''Uncategorized'' | Some g \<Rightarrow> g)"
    using parseLine_metadata_group[OF assms(1), of "([], [])"] p by simp
  ultimately show ?thesis
    by (simp add: js_def split: option.splits)
qed

lemma group_inline:
  assumes "\<not> metadataLine l" and "includes_str [44] (trim l)" and "split 10 content = [l]"
    and "fst (parseLine l ([], [])) = Some (n, g, u)"
    and "2 \<le> length (normalizeName up (trim n))"
  shows "map group_c (parseAndAggregate up gen localeCompare [(content, cat)]) = [js ''Other'']"
proof -
  have g: "g = js ''Other''"
    using assms(1,2,4) by (rule parseLine_inline_group)
  obtain r p where rp: "parseLine l ([], []) = (r, p)"
    by (cases "parseLine l ([], [])")
  with assms(4) have "recordsOf content = [(n, g, u)]"
    by (simp add: recordsOf_def assms(3))
  from aggregate_one_record[OF this assms(5)] show ?thesis
    by (simp add: g js_def)
qed

text \<open>
  C6, amended. The record of an inline \<open>name,url\<close> line carries the group \<open>Other\<close>,
  and so does the channel made from it. A metadata line sets the pending group to the
  value of its \<open>group-title\<close> attribute, and to \<open>Uncategorized\<close> when it has none;
  an \<open>http\<close> or \<open>rtmp\<close> address line after it emits its record with that pending
  group. The channel that a record with a new key of at least two code units creates
  has the record's group, and \<open>Other\<close> when that group is empty. So the channel made
  from a metadata line and the address line after it has the group \<open>Uncategorized\<close>
  when the metadata line has no \<open>group-title\<close>, \<open>Other\<close> when the attribute is
  empty, and the attribute's value otherwise.
\<close>

theorem C6_group_of_new_channel:
  "(\<not> metadataLine l \<and> includes_str [44] (trim l) \<and> fst (parseLine l pend) = Some (nm, grp, u)
      \<longrightarrow> grp = js ''Other'')
   \<and> (metadataLine m \<longrightarrow>
        snd (snd (parseLine m pend))
        = (case matchAttr (js ''group-title='' @ [34]) (trim m) of
             None \<Rightarrow> js ''Uncategorized'' | Some g \<Rightarrow> g))
   \<and> (2 \<le> length (normalizeName up (trim nm'))
        \<and> map_of (channelMap st) (normalizeName up (trim nm')) = None
      \<longrightarrow> map_option group_c
            (map_of (channelMap (addChannelToMap up gen nm' grp' u' cat st)) (normalizeName up (trim nm')))
          = Some (if grp' = [] then js ''Other'' else grp'))
   \<and> (m3uUrlLine l1 \<and> cn \<noteq> [] \<longrightarrow> parseLine l1 (cn, cg) = (Some (cn, cg, trim l1), (cn, cg)))
   \<and> (metadataLine m2 \<and> m3uUrlLine l2 \<and> split 10 content2 = [m2, l2]
        \<and> fst (snd (parseLine m2 ([], []))) \<noteq> []
        \<and> 2 \<le> length (normalizeName up (trim (fst (snd (parseLine m2 ([], []))))))
      \<longrightarrow> map group_c (parseAndAggregate up gen localeCompare [(content2, cat)])
          = [case matchAttr (js ''group-title='' @ [34]) (trim m2) of
               None \<Rightarrow> js ''Uncategorized''
             | Some g \<Rightarrow> if g = [] then js ''Other'' else g])
   \<and> (\<not> metadataLine l3 \<and> includes_str [44] (trim l3) \<and> split 10 content3 = [l3]
        \<and> fst (parseLine l3 ([], [])) = Some (n3, g3, u3)
        \<and> 2 \<le> length (normalizeName up (trim n3))
      \<longrightarrow> map group_c (parseAndAggregate up gen localeCompare [(content3, cat)]) = [js ''Other''])"
proof -
  have c1: "\<not> metadataLine l \<and> includes_str [44] (trim l) \<and> fst (parseLine l pend) = Some (nm, grp, u)
      \<longrightarrow> grp = js ''Other''"
    by (intro impI, elim conjE, rule parseLine_inline_group; assumption)
  have c2: "metadataLine m \<longrightarrow>
        snd (snd (parseLine m pend))
        = (case matchAttr (js ''group-title='' @ [34]) (trim m) of
             None \<Rightarrow> js ''Uncategorized'' | Some g \<Rightarrow> g)"
    by (intro impI, rule parseLine_metadata_group)
  have c3: "2 \<le> length (normalizeName up (trim nm'))
        \<and> map_of (channelMap st) (normalizeName up (trim nm')) = None
      \<longrightarrow> map_option group_c
            (map_of (channelMap (addChannelToMap up gen nm' grp' u' cat st)) (normalizeName up (trim nm')))
          = Some (if grp' = [] then js ''Other'' else grp')"
    by (intro impI, elim conjE, rule new_channel_group; assumption)
  have c4: "m3uUrlLine l1 \<and> cn \<noteq> [] \<longrightarrow> parseLine l1 (cn, cg) = (Some (cn, cg, trim l1), (cn, cg))"
    by (simp add: parseLine_m3uUrl)
  have c5: "metadataLine m2 \<and> m3uUrlLine l2 \<and> split 10 content2 = [m2, l2]
        \<and> fst (snd (parseLine m2 ([], []))) \<noteq> []
        \<and> 2 \<le> length (normalizeName up (trim (fst (snd (parseLine m2 ([], []))))))
      \<longrightarrow> map group_c (parseAndAggregate up gen localeCompare [(content2, cat)])
          = [case matchAttr (js ''group-title='' @ [34]) (trim m2) of
               None \<Rightarrow> js ''Uncategorized''
             | Some g \<Rightarrow> if g = [] then js ''Other'' else g]"
    by (intro impI, elim conjE, rule group_after_metadata; assumption)
  have c6: "\<not> metadataLine l3 \<and> includes_str [44] (trim l3) \<and> split 10 content3 = [l3]
        \<and> fst (parseLine l3 ([], [])) = Some (n3, g3, u3)
        \<and> 2 \<le> length (normalizeName up (trim n3))
      \<longrightarrow> map group_c (parseAndAggregate up gen localeCompare [(content3, cat)]) = [js ''Other'']"
    by (intro impI, elim conjE, rule group_inline; assumption)
  show ?thesis
    by (intro conjI c1 c2 c3 c4 c5 c6)
qed

theorem C6_group_of_new_channel_witness:
  "snd (snd (parseLine (js ''#EXTINF:-1,Foo TV'') ([], []))) = js ''Uncategorized''
   \<and> map_option group_c
        (map_of (channelMap (addChannelToMap upperBasicLatin exampleGen (js ''ESPN'') (js ''Other'')
            (js ''http://e'') China \<lparr>channelMap = [], idCount = 0\<rparr>)) (js ''ESPN''))
      = Some (js ''Other'')
   \<and> parseLine (js ''http://f/1'') (js ''Foo TV'', js ''Uncategorized'')
      = (Some (js ''Foo TV'', js ''Uncategorized'', js ''http://f/1''), (js ''Foo TV'', js ''Uncategorized''))
   \<and> map group_c (parseAndAggregate upperBasicLatin exampleGen (\<lambda>a b. 0)
          [(js ''#EXTINF:-1,Foo TV'' @ [10] @ js ''http://f/1'', China)]) = [js ''Uncategorized'']
   \<and> map group_c (parseAndAggregate upperBasicLatin exampleGen (\<lambda>a b. 0)
          [(js ''ESPN,http://e'', China)]) = [js ''Other'']"
proof -
  have h1: "\<not> metadataLine (js ''ESPN,http://e'')" "includes_str [44] (trim (js ''ESPN,http://e''))"
    "fst (parseLine (js ''ESPN,http://e'') ([], [])) = Some (js ''ESPN'', js ''Other'', js ''http://e'')"
    "split 10 (js ''ESPN,http://e'') = [js ''ESPN,http://e'']"
    by code_simp+
  have h2: "metadataLine (js ''#EXTINF:-1,Foo TV'')"
    "matchAttr (js ''group-title='' @ [34]) (trim (js ''#EXTINF:-1,Foo TV'')) = None"
    "m3uUrlLine (js ''http://f/1'')" "js ''Foo TV'' \<noteq> []"
    "trim (js ''http://f/1'') = js ''http://f/1''"
    "split 10 (js ''#EXTINF:-1,Foo TV'' @ [10] @ js ''http://f/1'')
       = [js ''#EXTINF:-1,Foo TV'', js ''http://f/1'']"
    "fst (snd (parseLine (js ''#EXTINF:-1,Foo TV'') ([], []))) = js ''Foo TV''"
    "2 \<le> length (normalizeName upperBasicLatin (trim (js ''Foo TV'')))"
    by code_simp+
  have h3: "2 \<le> length (normalizeName upperBasicLatin (trim (js ''ESPN'')))"
    "map_of (channelMap \<lparr>channelMap = [], idCount = 0\<rparr>) (normalizeName upperBasicLatin (trim (js ''ESPN''))) = None"
    "normalizeName upperBasicLatin (trim (js ''ESPN'')) = js ''ESPN''"
    "js ''Other'' \<noteq> []"
    by code_simp+
  from C6_group_of_new_channel[of "js ''ESPN,http://e''" "([], [])" "js ''ESPN''" "js ''Other''"
      "js ''http://e''" "js ''#EXTINF:-1,Foo TV''" upperBasicLatin "js ''ESPN''"
      "\<lparr>channelMap = [], idCount = 0\<rparr>"
      exampleGen "js ''Other''" "js ''http://e''" China
      "js ''http://f/1''" "js ''Foo TV''" "js ''Uncategorized''"
      "js ''#EXTINF:-1,Foo TV''" "js ''http://f/1''"
      "js ''#EXTINF:-1,Foo TV'' @ [10] @ js ''http://f/1''" "\<lambda>a b. 0"
      "js ''ESPN,http://e''" "js ''ESPN,http://e''" "js ''ESPN''" "js ''Other''" "js ''http://e''"]
    h1 h2 h3
  show ?thesis
    by simp
qed

section \<open>The removal of the noise tokens\<close>











section \<open>The scheduler: what every state of the catalog satisfies\<close>

lemma findIndex_Some: "findIndex P xs = Some i \<Longrightarrow> i < length xs \<and> P (xs ! i)"
proof (induction xs arbitrary: i)
  case Nil
  then show ?case by simp
next
  case (Cons x xs)
  then show ?case by (cases "P x") auto
qed

lemma list_all_update:
  "list_all P xs \<Longrightarrow> P v \<Longrightarrow> list_all P (xs[i := v])"
  by (induction xs arbitrary: i) (auto split: nat.splits)

lemma list_all_nth: "list_all P xs \<Longrightarrow> i < length xs \<Longrightarrow> P (xs ! i)"
  by (simp add: list_all_length)

lemma list_all_sortSources: "list_all P (sortSources xs) = list_all P xs"
  by (simp add: list_all_iff sortSources_set)

lemma checkSource_resultOK: "resultOK (checkSource t out)"
  by (cases out) (simp_all add: checkSource_def resultOK_def Let_def)

lemma markOne_OK:
  assumes "catalogOK next"
  shows "catalogOK (markOne t next)"
proof (cases "findIndex (\<lambda>c. id_c c = channelId t) next")
  case None
  with assms show ?thesis by (simp add: markOne_def)
next
  case (Some i)
  then have i: "i < length next" using findIndex_Some by fastforce
  with assms have ch: "channelOK (next ! i)"
    by (simp add: catalogOK_def list_all_nth)
  show ?thesis
  proof (cases "findIndex (\<lambda>s. id_s s = sourceId t) (sources (next ! i))")
    case None
    with Some assms show ?thesis by (simp add: markOne_def Let_def)
  next
    case j: (Some j)
    have "latencyOK ((sources (next ! i) ! j)\<lparr>status := Checking, latency := None\<rparr>)"
      by (simp add: latencyOK_def)
    with ch have "channelOK ((next ! i)\<lparr>sources := (sources (next ! i))
        [j := (sources (next ! i) ! j)\<lparr>status := Checking, latency := None\<rparr>]\<rparr>)"
      by (simp add: channelOK_def list_all_update)
    with assms Some j show ?thesis
      by (simp add: markOne_def Let_def catalogOK_def list_all_update)
  qed
qed

lemma writeBackOne_OK:
  assumes "catalogOK next" and "resultOK res"
  shows "catalogOK (writeBackOne res next)"
proof (cases "findIndex (\<lambda>c. id_c c = r_channelId res) next")
  case None
  with assms show ?thesis by (simp add: writeBackOne_def)
next
  case (Some i)
  then have i: "i < length next" using findIndex_Some by fastforce
  with assms have ch: "channelOK (next ! i)"
    by (simp add: catalogOK_def list_all_nth)
  show ?thesis
  proof (cases "findIndex (\<lambda>s. id_s s = r_sourceId res) (sources (next ! i))")
    case None
    with Some assms show ?thesis by (simp add: writeBackOne_def Let_def)
  next
    case j: (Some j)
    define new where "new = sortSources ((sources (next ! i))
        [j := (sources (next ! i) ! j)\<lparr>status := r_status res, latency := r_latency res,
               resolution := r_resolution res\<rparr>])"
    have "latencyOK ((sources (next ! i) ! j)\<lparr>status := r_status res, latency := r_latency res,
               resolution := r_resolution res\<rparr>)"
      using assms(2) by (simp add: latencyOK_def resultOK_def split: option.splits)
    with ch have n: "list_all latencyOK new"
      by (simp add: new_def channelOK_def list_all_update list_all_sortSources)
    then have "channelOK ((next ! i)\<lparr>sources := new,
        bestSource := (case new of [] \<Rightarrow> None | s # _ \<Rightarrow> Some s)\<rparr>)"
      by (cases new) (simp_all add: channelOK_def)
    with assms Some j show ?thesis
      by (simp add: writeBackOne_def Let_def catalogOK_def list_all_update new_def)
  qed
qed

lemma markChecking_OK: "catalogOK prev \<Longrightarrow> catalogOK (markChecking tasks prev)"
  unfolding markChecking_def
  by (induction tasks arbitrary: prev) (simp_all add: markOne_OK)

lemma writeBack_OK:
  "catalogOK prev \<Longrightarrow> list_all resultOK results \<Longrightarrow> catalogOK (writeBack results prev)"
  unfolding writeBack_def
  by (induction results arbitrary: prev) (simp_all add: writeBackOne_OK)

lemma batches_OK:
  "catalogOK prev \<Longrightarrow> list_all catalogOK (batches net tasks i prev)"
proof (induction net tasks i prev rule: batches.induct)
  case (1 net tasks i prev)
  show ?case
  proof (cases "i < length tasks")
    case False
    then show ?thesis by (subst batches.simps) simp
  next
    case True
    define results where "results = map (\<lambda>(k, t). checkSource t (net k))
        (zip [i ..< i + length (take BATCH_SIZE (drop i tasks))] (take BATCH_SIZE (drop i tasks)))"
    have "list_all resultOK results"
      by (auto simp: results_def list_all_iff checkSource_resultOK)
    with 1(2) have ok: "catalogOK (writeBack results prev)"
      by (rule writeBack_OK)
    have "list_all catalogOK (batches net tasks (i + BATCH_SIZE) (writeBack results prev))"
      using 1(1)[OF True refl refl refl ok[unfolded results_def]] by (simp add: results_def)
    with ok True show ?thesis
      by (subst batches.simps) (simp add: Let_def results_def)
  qed
qed

lemma runCheck_OK:
  "catalogOK prev \<Longrightarrow> list_all catalogOK (runCheck net isChecking targets prev)"
  by (simp add: runCheck_def Let_def markChecking_OK batches_OK)

lemma set_mapSet: "set (mapSet k v m) \<subseteq> insert (k, v) (set m)"
  by (induction m) (auto split: if_splits)

lemma freshAgg_mapSet:
  "freshAgg st \<Longrightarrow> freshChannel v \<Longrightarrow> freshAgg (st\<lparr>channelMap := mapSet k v (channelMap st), idCount := n\<rparr>)"
  using set_mapSet[of k v "channelMap st"] by (auto simp: freshAgg_def list_all_iff)

lemma addChannelToMap_fresh:
  assumes "freshAgg st"
  shows "freshAgg (addChannelToMap up gen nm grp u cat st)"
proof (cases "length (keyOf up nm) < 2")
  case True
  with assms show ?thesis
    by (simp add: normalizeName_too_short keyOf_def)
next
  case False
  then have k: "2 \<le> length (keyOf up nm)" by simp
  show ?thesis
  proof (cases "map_of (channelMap st) (keyOf up nm)")
    case None
    show ?thesis
      unfolding addChannelToMap_new[OF k None]
      using assms by (simp add: freshAgg_def freshChannel_def newSource_def)
  next
    case (Some ch)
    then have "(keyOf up nm, ch) \<in> set (channelMap st)" by (rule map_of_SomeD)
    with assms have f: "freshChannel ch" by (auto simp: freshAgg_def list_all_iff)
    then have "freshChannel (ch\<lparr>sources := sources ch @ [newSource i u]\<rparr>)" for i
      by (simp add: freshChannel_def newSource_def)
    then show ?thesis
      unfolding addChannelToMap_old[OF k Some]
      using assms by (simp add: freshAgg_mapSet)
  qed
qed

lemma fold_addRecord_fresh:
  "freshAgg st \<Longrightarrow> freshAgg (fold (addRecord up gen cat) rs st)"
  by (induction rs arbitrary: st) (simp_all add: addRecord_def addChannelToMap_fresh)

lemma fold_processPlaylist_fresh:
  "freshAgg st \<Longrightarrow> freshAgg (fold (processPlaylist up gen) pls st)"
proof (induction pls arbitrary: st)
  case Nil
  then show ?case by simp
next
  case (Cons p pls)
  obtain d c where p: "p = (d, c)" by (cases p)
  show ?case
    using Cons.IH[OF fold_addRecord_fresh[OF Cons.prems, of up gen c "recordsOf d"]]
    by (simp add: p processPlaylist_records)
qed

lemma set_insertBy: "set (insertBy cmp x ys) = insert x (set ys)"
  by (induction ys) auto

lemma set_sortBy: "set (sortBy cmp xs) = set xs"
  by (induction xs) (simp_all add: sortBy_def set_insertBy)

lemma aggregate_fresh: "list_all freshChannel (parseAndAggregate up gen localeCompare pls)"
proof -
  have "freshAgg (fold (processPlaylist up gen) pls \<lparr>channelMap = [], idCount = 0\<rparr>)"
    by (rule fold_processPlaylist_fresh) (simp add: freshAgg_def)
  then show ?thesis
    by (auto simp: parseAndAggregate_def list_all_iff set_sortBy freshAgg_def)
qed

lemma freshChannel_OK: "freshChannel ch \<Longrightarrow> channelOK ch"
  by (simp add: freshChannel_def channelOK_def list_all_iff latencyOK_def)

lemma aggregate_OK: "catalogOK (parseAndAggregate up gen localeCompare pls)"
  using aggregate_fresh[of up gen localeCompare pls]
  by (simp add: catalogOK_def list_all_iff freshChannel_OK)

lemma markOne_marks:
  assumes "findIndex (\<lambda>c. id_c c = channelId t) next = Some i"
    and "findIndex (\<lambda>s. id_s s = sourceId t) (sources (next ! i)) = Some j"
  shows "status (sources (markOne t next ! i) ! j) = Checking
       \<and> latency (sources (markOne t next ! i) ! j) = None"
  using assms findIndex_Some[OF assms(1)] findIndex_Some[OF assms(2)]
  by (simp add: markOne_def Let_def)

lemma writeBackOne_found:
  assumes "findIndex (\<lambda>c. id_c c = r_channelId res) next = Some i"
    and "findIndex (\<lambda>s. id_s s = r_sourceId res) (sources (next ! i)) = Some j"
  shows "sources (writeBackOne res next ! i)
       = sortSources ((sources (next ! i))
           [j := (sources (next ! i) ! j)\<lparr>status := r_status res, latency := r_latency res,
                   resolution := r_resolution res\<rparr>])"
    and "bestSource (writeBackOne res next ! i)
       = (case sources (writeBackOne res next ! i) of [] \<Rightarrow> None | s # _ \<Rightarrow> Some s)"
  using assms findIndex_Some[OF assms(1)]
  by (simp_all add: writeBackOne_def Let_def)

lemma writeBackOne_mset:
  assumes "findIndex (\<lambda>c. id_c c = r_channelId res) next = Some i"
    and "findIndex (\<lambda>s. id_s s = r_sourceId res) (sources (next ! i)) = Some j"
  shows "mset (sources (writeBackOne res next ! i))
       = add_mset ((sources (next ! i) ! j)\<lparr>status := r_status res, latency := r_latency res,
                     resolution := r_resolution res\<rparr>)
           (mset (sources (next ! i)) - {#sources (next ! i) ! j#})"
  using findIndex_Some[OF assms(2)]
  by (simp add: writeBackOne_found(1)[OF assms] sortSources_mset mset_update)

lemma checkSource_no_resolution:
  "r_resolution (checkSource t Throws) = None"
  "r_resolution (checkSource t (Response False ms b)) = None"
  "r_resolution (checkSource t (Response True ms NoBody)) = None"
  "r_resolution (checkSource t (Response True ms ReadFails)) = None"
  "r_resolution (checkSource t (Response True ms NoValue)) = None"
  "heights text = [] \<Longrightarrow> r_resolution (checkSource t (Response True ms (Chunk text))) = None"
  by (simp_all add: checkSource_def sniffResolution_def Let_def)

lemma sortSources_single: "sortSources [s] = [s]"
  by (simp add: sortSources_def sortBy_def)

lemma runCheck_single:
  assumes "sources ch = [s]"
  shows "runCheck net False [ch] [ch] =
     [[ch\<lparr>sources := [s\<lparr>status := Checking, latency := None\<rparr>]\<rparr>],
      [ch\<lparr>sources := [s\<lparr>status := r_status (checkSource \<lparr>channelId = id_c ch, sourceId = id_s s, t_url = url s\<rparr> (net 0)),
                          latency := r_latency (checkSource \<lparr>channelId = id_c ch, sourceId = id_s s, t_url = url s\<rparr> (net 0)),
                          resolution := r_resolution (checkSource \<lparr>channelId = id_c ch, sourceId = id_s s, t_url = url s\<rparr> (net 0))\<rparr>],
          bestSource := Some (s\<lparr>status := r_status (checkSource \<lparr>channelId = id_c ch, sourceId = id_s s, t_url = url s\<rparr> (net 0)),
                          latency := r_latency (checkSource \<lparr>channelId = id_c ch, sourceId = id_s s, t_url = url s\<rparr> (net 0)),
                          resolution := r_resolution (checkSource \<lparr>channelId = id_c ch, sourceId = id_s s, t_url = url s\<rparr> (net 0))\<rparr>)\<rparr>]]"
proof -
  define t where "t = \<lparr>channelId = id_c ch, sourceId = id_s s, t_url = url s\<rparr>"
  define r where "r = checkSource t (net 0)"
  have tasks: "tasksOf [ch] = [t]"
    by (simp add: tasksOf_def assms t_def)
  have marked: "markChecking [t] [ch] = [ch\<lparr>sources := [s\<lparr>status := Checking, latency := None\<rparr>]\<rparr>]"
    by (simp add: markChecking_def markOne_def Let_def assms t_def)
  have ids: "r_channelId r = id_c ch" "r_sourceId r = id_s s"
    by (cases "net 0"; simp add: r_def checkSource_def t_def Let_def)+
  have wb: "writeBack [r] [ch\<lparr>sources := [s\<lparr>status := Checking, latency := None\<rparr>]\<rparr>]
      = [ch\<lparr>sources := [s\<lparr>status := r_status r, latency := r_latency r, resolution := r_resolution r\<rparr>],
            bestSource := Some (s\<lparr>status := r_status r, latency := r_latency r, resolution := r_resolution r\<rparr>)\<rparr>]"
    by (simp add: writeBack_def writeBackOne_def Let_def ids sortSources_single)
  have b2: "batches net [t] BATCH_SIZE c = []" for c
    by (subst batches.simps) (simp add: BATCH_SIZE_def)
  have tk: "take BATCH_SIZE [t] = [t]"
    by (simp add: BATCH_SIZE_def)
  have "batches net [t] 0 c = [writeBack [r] c]" for c
    by (subst batches.simps) (simp add: Let_def b2 tk r_def)
  then have "runCheck net False [ch] [ch] =
      [[ch\<lparr>sources := [s\<lparr>status := Checking, latency := None\<rparr>]\<rparr>],
       writeBack [r] [ch\<lparr>sources := [s\<lparr>status := Checking, latency := None\<rparr>]\<rparr>]]"
    by (simp add: runCheck_def Let_def tasks marked)
  then have "runCheck net False [ch] [ch] =
      [[ch\<lparr>sources := [s\<lparr>status := Checking, latency := None\<rparr>]\<rparr>],
       [ch\<lparr>sources := [s\<lparr>status := r_status r, latency := r_latency r, resolution := r_resolution r\<rparr>],
            bestSource := Some (s\<lparr>status := r_status r, latency := r_latency r, resolution := r_resolution r\<rparr>)\<rparr>]]"
    by (simp only: wb)
  then show ?thesis
    unfolding r_def t_def .
qed

lemma latencyOK_iff:
  "latencyOK s \<longleftrightarrow>
     (status s \<noteq> Online \<longrightarrow> latency s = None) \<and> (\<forall>l. latency s = Some l \<longrightarrow> 0 \<le> l)"
  by (cases "latency s") (auto simp: latencyOK_def)

lemma channelOK_iff:
  "channelOK ch \<longleftrightarrow> (\<forall>s. s \<in> set (sources ch) \<or> bestSource ch = Some s \<longrightarrow> latencyOK s)"
  by (cases "bestSource ch") (auto simp: channelOK_def list_all_iff)

lemma catalogOK_iff:
  "catalogOK cs \<longleftrightarrow>
     (\<forall>ch\<in>set cs. \<forall>s. s \<in> set (sources ch) \<or> bestSource ch = Some s \<longrightarrow>
        (status s \<noteq> Online \<longrightarrow> latency s = None) \<and> (\<forall>l. latency s = Some l \<longrightarrow> 0 \<le> l))"
  unfolding catalogOK_def list_all_iff channelOK_iff latencyOK_iff ..

lemma reachable_OK: "reachable cs \<Longrightarrow> catalogOK cs"
proof (induction rule: reachable.induct)
  case start
  show ?case by (simp add: catalogOK_def)
next
  case (loaded gen localeCompare playlists)
  show ?case by (rule aggregate_OK)
next
  case (checked prev st net isChecking targetChannels)
  then show ?case
    using runCheck_OK[of prev net isChecking targetChannels] by (simp add: list_all_iff)
qed

lemma reachable_exampleCatalog: "reachable exampleCatalog"
  unfolding exampleCatalog_def by (rule reachable.loaded)

lemma reachable_checkedCatalog: "reachable checkedCatalog"
proof -
  have "runCheck exampleNet False exampleCatalog exampleCatalog \<noteq> []"
    by code_simp
  then have "checkedCatalog \<in> set (runCheck exampleNet False exampleCatalog exampleCatalog)"
    unfolding checkedCatalog_def by (rule last_in_set)
  with reachable_exampleCatalog show ?thesis
    by (rule reachable.checked)
qed

lemma reachable_markedAgain: "reachable markedAgain"
proof -
  have "runCheck (\<lambda>k. Throws) False checkedCatalog checkedCatalog \<noteq> []"
    by code_simp
  then have "markedAgain \<in> set (runCheck (\<lambda>k. Throws) False checkedCatalog checkedCatalog)"
    unfolding markedAgain_def by (rule hd_in_set)
  with reachable_checkedCatalog show ?thesis
    by (rule reachable.checked)
qed

lemma set_sourcesAt:
  "set (sourcesAt cs cid sid) = {s. \<exists>ch\<in>set cs. id_c ch = cid \<and> s \<in> set (sources ch) \<and> id_s s = sid}"
  by (auto simp: sourcesAt_def)

lemma findIndex_None: "findIndex P xs = None \<Longrightarrow> \<forall>x\<in>set xs. \<not> P x"
  by (induction xs) (auto split: if_splits)

lemma distinct_map_eq:
  "distinct (map f xs) \<Longrightarrow> x \<in> set xs \<Longrightarrow> y \<in> set xs \<Longrightarrow> f x = f y \<Longrightarrow> x = y"
  by (auto simp: distinct_map inj_on_def)

lemma update_found:
  assumes wi: "wellIdentified next"
    and i: "findIndex (\<lambda>c. id_c c = cid0) next = Some i"
    and j: "findIndex (\<lambda>s. id_s s = sid0) (sources (next ! i)) = Some j"
    and c: "id_c ch' = id_c (next ! i)"
    and m: "mset (sources ch') = mset ((sources (next ! i))[j := g (sources (next ! i) ! j)])"
    and g: "id_s (g (sources (next ! i) ! j)) = id_s (sources (next ! i) ! j)"
  shows "wellIdentified (next[i := ch'])"
    and "set (sourcesAt (next[i := ch']) cid sid)
       = (if cid = cid0 \<and> sid = sid0 then g ` set (sourcesAt next cid sid)
          else set (sourcesAt next cid sid))"
proof -
  define srcs where "srcs = sources (next ! i)"
  define old where "old = srcs ! j"
  from i have il: "i < length next" and ic: "id_c (next ! i) = cid0"
    using findIndex_Some by fastforce+
  from j have jl: "j < length srcs" and js: "id_s old = sid0"
    using findIndex_Some unfolding srcs_def old_def by fastforce+
  from wi have dc: "distinct (map id_c next)"
    and ds: "\<And>ch. ch \<in> set next \<Longrightarrow> distinct (map id_s (sources ch))"
    by (auto simp: wellIdentified_def list_all_iff)
  from dc have dn: "distinct next" by (simp add: distinct_map)
  from il have mem: "next ! i \<in> set next" by simp
  from ds[OF mem] have dsrcs: "distinct (map id_s srcs)" by (simp add: srcs_def)
  then have dsr: "distinct srcs" by (simp add: distinct_map)
  from jl have omem: "old \<in> set srcs" by (simp add: old_def)
  have ids: "map id_c (next[i := ch']) = map id_c next"
    using c il by (simp add: map_update list_update_same_conv)
  have "mset (map id_s (sources ch')) = mset (map id_s (srcs[j := g old]))"
    using m unfolding srcs_def old_def by (metis mset_map)
  also have "map id_s (srcs[j := g old]) = map id_s srcs"
    using g jl by (simp add: map_update list_update_same_conv srcs_def old_def)
  finally have dch: "distinct (map id_s (sources ch'))"
    using dsrcs mset_eq_imp_distinct_iff by blast
  have setn: "set (next[i := ch']) = insert ch' (set next - {next ! i})"
    using dn il by (rule set_update_distinct)
  show "wellIdentified (next[i := ch'])"
    unfolding wellIdentified_def ids using dc ds dch
    by (auto simp: list_all_iff setn)
  have sets: "set (sources ch') = insert (g old) (set srcs - {old})"
  proof -
    have "set (sources ch') = set (srcs[j := g old])"
      using m by (metis set_mset_mset srcs_def old_def)
    then show ?thesis
      using dsr jl by (simp add: set_update_distinct old_def)
  qed
  have only_ch: "ch = next ! i" if "ch \<in> set next" and "id_c ch = cid0" for ch
    using distinct_map_eq[OF dc that(1) mem] that(2) ic by simp
  have only_src: "s = old" if "s \<in> set srcs" and "id_s s = sid0" for s
    using distinct_map_eq[OF dsrcs that(1) omem] that(2) js by simp
  have gid: "id_s (g old) = sid0"
    using g js by (simp add: srcs_def old_def)
  have cid': "id_c ch' = cid0"
    using c ic by simp
  show "set (sourcesAt (next[i := ch']) cid sid)
       = (if cid = cid0 \<and> sid = sid0 then g ` set (sourcesAt next cid sid)
          else set (sourcesAt next cid sid))"
  proof (cases "cid = cid0")
    case False
    then show ?thesis
      unfolding set_sourcesAt setn using ic cid' by auto
  next
    case True
    have l: "set (sourcesAt (next[i := ch']) cid sid) = {s \<in> set (sources ch'). id_s s = sid}"
    proof (intro set_eqI iffI)
      fix s assume "s \<in> set (sourcesAt (next[i := ch']) cid sid)"
      then obtain ch where ch: "ch \<in> insert ch' (set next - {next ! i})" "id_c ch = cid0"
        and s: "s \<in> set (sources ch)" "id_s s = sid"
        unfolding set_sourcesAt setn using True by blast
      from ch only_ch have "ch = ch'" by blast
      with s show "s \<in> {s \<in> set (sources ch'). id_s s = sid}" by simp
    next
      fix s assume "s \<in> {s \<in> set (sources ch'). id_s s = sid}"
      then show "s \<in> set (sourcesAt (next[i := ch']) cid sid)"
        unfolding set_sourcesAt setn using True cid' by blast
    qed
    have r: "set (sourcesAt next cid sid) = {s \<in> set srcs. id_s s = sid}"
    proof (intro set_eqI iffI)
      fix s assume "s \<in> set (sourcesAt next cid sid)"
      then obtain ch where ch: "ch \<in> set next" "id_c ch = cid0"
        and s: "s \<in> set (sources ch)" "id_s s = sid"
        unfolding set_sourcesAt using True by blast
      from ch only_ch have "ch = next ! i" by blast
      with s show "s \<in> {s \<in> set srcs. id_s s = sid}" by (simp add: srcs_def)
    next
      fix s assume "s \<in> {s \<in> set srcs. id_s s = sid}"
      then show "s \<in> set (sourcesAt next cid sid)"
        unfolding set_sourcesAt srcs_def using True mem ic by blast
    qed
    show ?thesis
    proof (cases "sid = sid0")
      case False
      have "{s \<in> insert (g old) (set srcs - {old}). id_s s = sid} = {s \<in> set srcs. id_s s = sid}"
        using False gid js by blast
      with True False show ?thesis
        unfolding l r sets by simp
    next
      case s: True
      have "{s \<in> set srcs. id_s s = sid0} = {old}"
        using only_src omem js by blast
      moreover have "{s \<in> insert (g old) (set srcs - {old}). id_s s = sid0} = {g old}"
        using only_src gid by blast
      ultimately show ?thesis
        unfolding l r sets using True s by simp
    qed
  qed
qed

lemma sourcesAt_not_found_channel:
  "findIndex (\<lambda>c. id_c c = cid) cs = None \<Longrightarrow> set (sourcesAt cs cid sid) = {}"
  using findIndex_None[of "\<lambda>c. id_c c = cid" cs] unfolding set_sourcesAt by blast

lemma sourcesAt_not_found_source:
  assumes "wellIdentified cs" and "findIndex (\<lambda>c. id_c c = cid) cs = Some i"
    and "findIndex (\<lambda>s. id_s s = sid) (sources (cs ! i)) = None"
  shows "set (sourcesAt cs cid sid) = {}"
proof -
  from assms(2) have il: "i < length cs" and ic: "id_c (cs ! i) = cid"
    using findIndex_Some by fastforce+
  from assms(1) have dc: "distinct (map id_c cs)"
    by (simp add: wellIdentified_def)
  have "ch = cs ! i" if "ch \<in> set cs" and "id_c ch = cid" for ch
    using distinct_map_eq[OF dc that(1), of "cs ! i"] il that(2) ic by simp
  moreover have "\<forall>s\<in>set (sources (cs ! i)). id_s s \<noteq> sid"
    using findIndex_None[OF assms(3)] by blast
  ultimately show ?thesis
    unfolding set_sourcesAt by blast
qed

lemma writeBackOne_sourcesAt:
  assumes "wellIdentified next"
  shows "wellIdentified (writeBackOne res next)"
    and "set (sourcesAt (writeBackOne res next) cid sid)
       = (if (r_channelId res, r_sourceId res) = (cid, sid)
          then writeFields res ` set (sourcesAt next cid sid)
          else set (sourcesAt next cid sid))"
proof -
  have "wellIdentified (writeBackOne res next)
      \<and> set (sourcesAt (writeBackOne res next) cid sid)
       = (if (r_channelId res, r_sourceId res) = (cid, sid)
          then writeFields res ` set (sourcesAt next cid sid)
          else set (sourcesAt next cid sid))"
  proof (cases "findIndex (\<lambda>c. id_c c = r_channelId res) next")
    case None
    then have "writeBackOne res next = next"
      by (simp add: writeBackOne_def)
    with assms sourcesAt_not_found_channel[OF None] show ?thesis
      by auto
  next
    case (Some i)
    show ?thesis
    proof (cases "findIndex (\<lambda>s. id_s s = r_sourceId res) (sources (next ! i))")
      case None
      then have "writeBackOne res next = next"
        using Some by (simp add: writeBackOne_def Let_def)
      with assms sourcesAt_not_found_source[OF assms Some None] show ?thesis
        by auto
    next
      case j: (Some j)
      define ch' where "ch' = (next ! i)\<lparr>sources := sortSources ((sources (next ! i))
            [j := writeFields res (sources (next ! i) ! j)]),
          bestSource := (case sortSources ((sources (next ! i))
            [j := writeFields res (sources (next ! i) ! j)]) of [] \<Rightarrow> None | s # _ \<Rightarrow> Some s)\<rparr>"
      have w: "writeBackOne res next = next[i := ch']"
        using Some j by (simp add: writeBackOne_def Let_def ch'_def writeFields_def)
      have c: "id_c ch' = id_c (next ! i)"
        by (simp add: ch'_def)
      have m: "mset (sources ch') = mset ((sources (next ! i))[j := writeFields res (sources (next ! i) ! j)])"
        by (simp add: ch'_def sortSources_mset)
      have g: "id_s (writeFields res (sources (next ! i) ! j)) = id_s (sources (next ! i) ! j)"
        by (simp add: writeFields_def)
      show ?thesis
        unfolding w
        using update_found(1)[where g = "writeFields res", OF assms Some j c m g]
          update_found(2)[where g = "writeFields res", OF assms Some j c m g, of cid sid]
        by auto
    qed
  qed
  then show "wellIdentified (writeBackOne res next)"
    and "set (sourcesAt (writeBackOne res next) cid sid)
       = (if (r_channelId res, r_sourceId res) = (cid, sid)
          then writeFields res ` set (sourcesAt next cid sid)
          else set (sourcesAt next cid sid))"
    by blast+
qed

lemma markOne_sourcesAt:
  assumes "wellIdentified next"
  shows "wellIdentified (markOne t next)"
    and "set (sourcesAt (markOne t next) cid sid)
       = (if (channelId t, sourceId t) = (cid, sid)
          then markFields ` set (sourcesAt next cid sid)
          else set (sourcesAt next cid sid))"
proof -
  have "wellIdentified (markOne t next)
      \<and> set (sourcesAt (markOne t next) cid sid)
       = (if (channelId t, sourceId t) = (cid, sid)
          then markFields ` set (sourcesAt next cid sid)
          else set (sourcesAt next cid sid))"
  proof (cases "findIndex (\<lambda>c. id_c c = channelId t) next")
    case None
    then have "markOne t next = next"
      by (simp add: markOne_def)
    with assms sourcesAt_not_found_channel[OF None] show ?thesis
      by auto
  next
    case (Some i)
    show ?thesis
    proof (cases "findIndex (\<lambda>s. id_s s = sourceId t) (sources (next ! i))")
      case None
      then have "markOne t next = next"
        using Some by (simp add: markOne_def Let_def)
      with assms sourcesAt_not_found_source[OF assms Some None] show ?thesis
        by auto
    next
      case j: (Some j)
      define ch' where "ch' = (next ! i)\<lparr>sources := (sources (next ! i))
            [j := markFields (sources (next ! i) ! j)]\<rparr>"
      have w: "markOne t next = next[i := ch']"
        using Some j by (simp add: markOne_def Let_def ch'_def markFields_def)
      have c: "id_c ch' = id_c (next ! i)"
        by (simp add: ch'_def)
      have m: "mset (sources ch') = mset ((sources (next ! i))[j := markFields (sources (next ! i) ! j)])"
        by (simp add: ch'_def)
      have g: "id_s (markFields (sources (next ! i) ! j)) = id_s (sources (next ! i) ! j)"
        by (simp add: markFields_def)
      show ?thesis
        unfolding w
        using update_found(1)[where g = markFields, OF assms Some j c m g]
          update_found(2)[where g = markFields, OF assms Some j c m g, of cid sid]
        by auto
    qed
  qed
  then show "wellIdentified (markOne t next)"
    and "set (sourcesAt (markOne t next) cid sid)
       = (if (channelId t, sourceId t) = (cid, sid)
          then markFields ` set (sourcesAt next cid sid)
          else set (sourcesAt next cid sid))"
    by blast+
qed

lemma fold_sourcesAt:
  assumes step: "\<And>r cs. wellIdentified cs \<Longrightarrow> wellIdentified (step r cs)"
    and eff: "\<And>r cs. wellIdentified cs \<Longrightarrow>
        set (sourcesAt (step r cs) cid sid)
        = (if key r = (cid, sid) then g r ` set (sourcesAt cs cid sid) else set (sourcesAt cs cid sid))"
    and wi: "wellIdentified cs"
  shows "wellIdentified (fold step rs cs)
       \<and> set (sourcesAt (fold step rs cs) cid sid)
         = (\<lambda>s. fold (\<lambda>r s. if key r = (cid, sid) then g r s else s) rs s) ` set (sourcesAt cs cid sid)"
  using wi
proof (induction rs arbitrary: cs)
  case Nil
  then show ?case by simp
next
  case (Cons r rs)
  have w: "wellIdentified (step r cs)" using Cons.prems by (rule step)
  show ?case
    using Cons.IH[OF w] eff[OF Cons.prems, of r]
    by (auto simp: image_image)
qed

lemma fold_no_match:
  "\<forall>r\<in>set rs. key r \<noteq> p \<Longrightarrow> fold (\<lambda>r s. if key r = p then g r s else s) rs s = s"
  by (induction rs) simp_all

lemma fold_single_match:
  assumes "distinct (map key rs)" and "res \<in> set rs"
  shows "fold (\<lambda>r s. if key r = key res then g r s else s) rs s = g res s"
  using assms
proof (induction rs arbitrary: s)
  case Nil
  then show ?case by simp
next
  case (Cons a rs)
  show ?case
  proof (cases "a = res")
    case True
    from Cons.prems(1) have "key a \<notin> key ` set rs"
      by simp
    with True have "\<forall>r\<in>set rs. key r \<noteq> key res"
      by (metis imageI)
    with True show ?thesis
      by (simp add: fold_no_match)
  next
    case False
    with Cons.prems have "res \<in> set rs" and "key a \<noteq> key res" and "distinct (map key rs)"
      by auto
    with Cons.IH show ?thesis by simp
  qed
qed

lemma writeBack_wellIdentified:
  "wellIdentified prev \<Longrightarrow> wellIdentified (writeBack results prev)"
  unfolding writeBack_def
  by (induction results arbitrary: prev) (simp_all add: writeBackOne_sourcesAt(1))

lemma markChecking_wellIdentified:
  "wellIdentified prev \<Longrightarrow> wellIdentified (markChecking tasks prev)"
  unfolding markChecking_def
  by (induction tasks arbitrary: prev) (simp_all add: markOne_sourcesAt(1))

lemma writeBack_sourcesAt:
  assumes "wellIdentified prev"
  shows "set (sourcesAt (writeBack results prev) cid sid)
       = (\<lambda>s. fold (\<lambda>r s. if resultKey r = (cid, sid) then writeFields r s else s) results s)
           ` set (sourcesAt prev cid sid)"
  unfolding writeBack_def
  using fold_sourcesAt[where step = writeBackOne and key = resultKey and g = writeFields,
      OF writeBackOne_sourcesAt(1) _ assms, of cid sid results]
    writeBackOne_sourcesAt(2)
  by (simp add: resultKey_def)

lemma markChecking_sourcesAt:
  assumes "wellIdentified prev"
  shows "set (sourcesAt (markChecking tasks prev) cid sid)
       = (\<lambda>s. fold (\<lambda>t s. if taskKey t = (cid, sid) then markFields s else s) tasks s)
           ` set (sourcesAt prev cid sid)"
  unfolding markChecking_def
  using fold_sourcesAt[where step = markOne and key = taskKey and g = "\<lambda>t. markFields",
      OF markOne_sourcesAt(1) _ assms, of cid sid tasks]
    markOne_sourcesAt(2)
  by (simp add: taskKey_def)

lemma writeBack_each_result:
  assumes "wellIdentified prev" and "distinct (map resultKey results)" and "res \<in> set results"
  shows "set (sourcesAt (writeBack results prev) (r_channelId res) (r_sourceId res))
       = writeFields res ` set (sourcesAt prev (r_channelId res) (r_sourceId res))"
proof -
  have "fold (\<lambda>r s. if resultKey r = resultKey res then writeFields r s else s) results s
      = writeFields res s" for s
    using assms(2,3) by (rule fold_single_match)
  then show ?thesis
    using writeBack_sourcesAt[OF assms(1), of results "r_channelId res" "r_sourceId res"]
    by (simp add: resultKey_def)
qed

lemma writeFields_after_marks:
  "writeFields res (fold (\<lambda>t s. if P t then markFields s else s) ts s) = writeFields res s"
  by (induction ts arbitrary: s) (simp_all add: writeFields_def markFields_def)

lemma batch_results:
  "map (\<lambda>(k, t). f t k) (zip [i ..< i + length (take b (drop i tasks))] (take b (drop i tasks)))
   = map (\<lambda>k. f (tasks ! k) k) [i ..< i + length (take b (drop i tasks))]"
proof (rule nth_equalityI)
  show "length (map (\<lambda>(k, t). f t k) (zip [i ..< i + length (take b (drop i tasks))] (take b (drop i tasks))))
      = length (map (\<lambda>k. f (tasks ! k) k) [i ..< i + length (take b (drop i tasks))])"
    by simp
next
  fix j
  assume "j < length (map (\<lambda>(k, t). f t k) (zip [i ..< i + length (take b (drop i tasks))] (take b (drop i tasks))))"
  then have j: "j < length tasks - i" "j < b" by simp_all
  then have "drop i tasks ! j = tasks ! (i + j)" by (simp add: nth_drop)
  with j show "map (\<lambda>(k, t). f t k) (zip [i ..< i + length (take b (drop i tasks))] (take b (drop i tasks))) ! j
      = map (\<lambda>k. f (tasks ! k) k) [i ..< i + length (take b (drop i tasks))] ! j"
    by simp
qed

lemma writeBack_append:
  "writeBack (rs @ rs') prev = writeBack rs' (writeBack rs prev)"
  by (simp add: writeBack_def)

lemma batches_last:
  "last (prev # batches net tasks i prev)
   = writeBack (map (\<lambda>k. checkSource (tasks ! k) (net k)) [i ..< length tasks]) prev"
proof (induction net tasks i prev rule: batches.induct)
  case (1 net tasks i prev)
  show ?case
  proof (cases "i < length tasks")
    case False
    then show ?thesis
      by (subst batches.simps) (simp add: writeBack_def)
  next
    case True
    define n where "n = length (take BATCH_SIZE (drop i tasks))"
    define results where "results = map (\<lambda>k. checkSource (tasks ! k) (net k)) [i ..< i + n]"
    have r: "map (\<lambda>(k, t). checkSource t (net k))
        (zip [i ..< i + length (take BATCH_SIZE (drop i tasks))] (take BATCH_SIZE (drop i tasks)))
        = results"
      unfolding results_def n_def by (rule batch_results)
    have n: "i + n = min (i + BATCH_SIZE) (length tasks)"
      using True by (auto simp add: n_def min_def)
    have unf: "batches net tasks i prev
        = writeBack results prev # batches net tasks (i + BATCH_SIZE) (writeBack results prev)"
      by (subst batches.simps) (simp only: True if_True Let_def r)
    have ih: "last (writeBack results prev # batches net tasks (i + BATCH_SIZE) (writeBack results prev))
        = writeBack (map (\<lambda>k. checkSource (tasks ! k) (net k)) [i + BATCH_SIZE ..< length tasks])
            (writeBack results prev)"
      using "1.IH"[OF True refl refl refl] by (simp only: r)
    have split: "[i ..< length tasks] = [i ..< i + n] @ [i + BATCH_SIZE ..< length tasks]"
    proof (cases "i + BATCH_SIZE \<le> length tasks")
      case True
      with n have "i + n = i + BATCH_SIZE" by simp
      from True obtain k where k: "length tasks = (i + BATCH_SIZE) + k"
        using le_iff_add by blast
      have "[i ..< (i + BATCH_SIZE) + k] = [i ..< i + BATCH_SIZE] @ [i + BATCH_SIZE ..< (i + BATCH_SIZE) + k]"
        by (rule upt_add_eq_append) simp
      with k \<open>i + n = i + BATCH_SIZE\<close> show ?thesis by simp
    next
      case False
      with n have "i + n = length tasks" by simp
      with False show ?thesis by simp
    qed
    show ?thesis
      unfolding unf split using ih
      by (simp add: writeBack_append results_def)
  qed
qed

lemma resultKey_checkSource: "resultKey (checkSource t out) = taskKey t"
  by (simp add: resultKey_def taskKey_def checkSource_def Let_def split: outcome.splits)

lemma tasksOf_keys:
  "map taskKey (tasksOf targets)
   = concat (map (\<lambda>ch. map (\<lambda>s. (id_c ch, id_s s)) (sources ch)) targets)"
  by (induction targets) (simp_all add: tasksOf_def taskKey_def comp_def)

lemma distinct_taskKeys:
  "wellIdentified targets \<Longrightarrow> distinct (map taskKey (tasksOf targets))"
proof (induction targets)
  case Nil
  then show ?case by (simp add: tasksOf_def)
next
  case (Cons ch targets)
  from Cons.prems have w: "wellIdentified targets" and d: "distinct (map id_s (sources ch))"
    and n: "id_c ch \<notin> id_c ` set targets"
    by (simp_all add: wellIdentified_def)
  have a: "distinct (map (\<lambda>s. (id_c ch, id_s s)) (sources ch))"
    using d by (simp add: distinct_map inj_on_def)
  have b: "fst ` set (concat (map (\<lambda>c. map (\<lambda>s. (id_c c, id_s s)) (sources c)) targets))
      \<subseteq> id_c ` set targets"
    by auto
  have c: "fst ` set (map (\<lambda>s. (id_c ch, id_s s)) (sources ch)) \<subseteq> {id_c ch}"
    by auto
  have e: "set (map (\<lambda>s. (id_c ch, id_s s)) (sources ch))
      \<inter> set (concat (map (\<lambda>c. map (\<lambda>s. (id_c c, id_s s)) (sources c)) targets)) = {}"
    using b c n by fastforce
  show ?case
    unfolding tasksOf_keys using a e Cons.IH[OF w]
    by (simp add: tasksOf_keys)
qed

lemma last_runCheck:
  "targets \<noteq> [] \<Longrightarrow>
   last (runCheck net False targets prev)
   = writeBack (map (\<lambda>k. checkSource (tasksOf targets ! k) (net k)) [0 ..< length (tasksOf targets)])
       (markChecking (tasksOf targets) prev)"
  by (simp only: runCheck_def Let_def batches_last simp_thms if_False)

lemma runCheck_each_task:
  assumes "wellIdentified prev" and "wellIdentified targets" and "targets \<noteq> []"
    and "k < length (tasksOf targets)"
  shows "set (sourcesAt (last (runCheck net False targets prev))
                (channelId (tasksOf targets ! k)) (sourceId (tasksOf targets ! k)))
       = writeFields (checkSource (tasksOf targets ! k) (net k))
           ` set (sourcesAt prev (channelId (tasksOf targets ! k)) (sourceId (tasksOf targets ! k)))"
proof -
  define tasks where "tasks = tasksOf targets"
  define results where "results = map (\<lambda>k. checkSource (tasks ! k) (net k)) [0 ..< length tasks]"
  define res where "res = checkSource (tasks ! k) (net k)"
  have keys: "map resultKey results = map taskKey tasks"
    unfolding results_def by (rule nth_equalityI) (simp_all add: resultKey_checkSource)
  have d: "distinct (map resultKey results)"
    unfolding keys tasks_def using assms(2) by (rule distinct_taskKeys)
  have m: "res \<in> set results"
    unfolding res_def results_def using assms(4) by (simp add: tasks_def)
  have ids: "r_channelId res = channelId (tasks ! k)" "r_sourceId res = sourceId (tasks ! k)"
    using resultKey_checkSource[of "tasks ! k" "net k"]
    by (simp_all add: res_def resultKey_def taskKey_def)
  have w: "wellIdentified (markChecking tasks prev)"
    using assms(1) by (rule markChecking_wellIdentified)
  have "set (sourcesAt (writeBack results (markChecking tasks prev)) (r_channelId res) (r_sourceId res))
      = writeFields res ` set (sourcesAt (markChecking tasks prev) (r_channelId res) (r_sourceId res))"
    using w d m by (rule writeBack_each_result)
  also have "\<dots> = writeFields res ` set (sourcesAt prev (r_channelId res) (r_sourceId res))"
    unfolding markChecking_sourcesAt[OF assms(1)] image_image writeFields_after_marks ..
  finally show ?thesis
    unfolding last_runCheck[OF assms(3)] ids
    by (simp only: tasks_def results_def res_def)
qed

lemma batches_wellIdentified:
  "wellIdentified prev \<Longrightarrow> list_all wellIdentified (batches net tasks i prev)"
proof (induction net tasks i prev rule: batches.induct)
  case (1 net tasks i prev)
  show ?case
  proof (cases "i < length tasks")
    case False
    then show ?thesis by (subst batches.simps) simp
  next
    case True
    show ?thesis
      using "1.IH"[OF True refl refl refl] "1.prems" True
      by (subst batches.simps) (simp add: Let_def writeBack_wellIdentified)
  qed
qed

lemma runCheck_wellIdentified:
  "wellIdentified prev \<Longrightarrow> list_all wellIdentified (runCheck net b targets prev)"
  by (simp add: runCheck_def Let_def batches_wellIdentified markChecking_wellIdentified)

lemma sourcesAt_nonempty:
  "ch \<in> set cs \<Longrightarrow> s \<in> set (sources ch) \<Longrightarrow> s \<in> set (sourcesAt cs (id_c ch) (id_s s))"
  by (auto simp add: sourcesAt_def)

lemma mset_insertBy: "mset (insertBy cmp x ys) = add_mset x (mset ys)"
  by (induction ys) auto

lemma mset_sortBy: "mset (sortBy cmp xs) = mset xs"
  by (induction xs) (simp_all add: sortBy_def mset_insertBy)

lemma gen_fresh:
  assumes "inj gen"
  shows "gen n \<notin> gen ` {..< (n::nat)}"
proof
  assume "gen n \<in> gen ` {..< n}"
  then obtain m where "m < n" and "gen n = gen m" by auto
  with assms show False by (auto dest: injD)
qed

lemma identifiedChannel_mono:
  assumes "identifiedChannel gen m ch" and "m \<le> n"
  shows "identifiedChannel gen n ch"
proof -
  from assms(2) have "gen ` {..< m} \<subseteq> gen ` {..< n}" by auto
  with assms(1) show ?thesis
    unfolding identifiedChannel_def by blast
qed

lemma identifiedChannel_new:
  assumes "inj gen"
  shows "identifiedChannel gen (Suc (Suc n))
     \<lparr>id_c = gen n, name = a, group_c = b, category = c,
      sources = [newSource (gen (Suc n)) u], bestSource = None\<rparr>"
  by (simp add: identifiedChannel_def newSource_def)

lemma identifiedChannel_add:
  assumes "inj gen" and "identifiedChannel gen n ch"
  shows "identifiedChannel gen (Suc n) (ch\<lparr>sources := sources ch @ [newSource (gen n) u]\<rparr>)"
proof -
  have s: "gen ` {..< n} \<subseteq> gen ` {..< Suc n}" by auto
  have f: "gen n \<notin> id_s ` set (sources ch)"
    using gen_fresh[OF assms(1), of n] assms(2) unfolding identifiedChannel_def by blast
  have g: "gen n \<in> gen ` {..< Suc n}" by simp
  from assms(2) have a: "id_c ch \<in> gen ` {..< n}" and b: "distinct (map id_s (sources ch))"
    and c: "id_s ` set (sources ch) \<subseteq> gen ` {..< n}"
    by (simp_all add: identifiedChannel_def)
  have "id_c ch \<in> gen ` {..< Suc n}" using a s by blast
  moreover have "distinct (map id_s (sources ch @ [newSource (gen n) u]))"
    using b f by (simp add: newSource_def)
  moreover have "id_s ` set (sources ch @ [newSource (gen n) u]) \<subseteq> gen ` {..< Suc n}"
    using c s g by (auto simp: newSource_def)
  ultimately show ?thesis
    by (simp add: identifiedChannel_def)
qed

lemma mapSet_ids:
  "map_of m k = Some ch \<Longrightarrow> id_c v = id_c ch
   \<Longrightarrow> map (\<lambda>p. id_c (snd p)) (mapSet k v m) = map (\<lambda>p. id_c (snd p)) m"
  by (induction m) (auto split: if_splits)

lemma addChannelToMap_identified:
  assumes "inj gen" and "identifiedAgg gen st"
  shows "identifiedAgg gen (addChannelToMap up gen nm grp u cat st)"
proof (cases "length (keyOf up nm) < 2")
  case True
  with assms show ?thesis
    by (simp add: normalizeName_too_short keyOf_def)
next
  case False
  then have k: "2 \<le> length (keyOf up nm)" by simp
  from assms(2) have d: "distinct (map (\<lambda>p. id_c (snd p)) (channelMap st))"
    and e: "\<And>p. p \<in> set (channelMap st) \<Longrightarrow> identifiedChannel gen (idCount st) (snd p)"
    by (simp_all add: identifiedAgg_def)
  show ?thesis
  proof (cases "map_of (channelMap st) (keyOf up nm)")
    case None
    have "(\<lambda>p. id_c (snd p)) ` set (channelMap st) \<subseteq> gen ` {..< idCount st}"
      using e unfolding identifiedChannel_def by blast
    then have a: "gen (idCount st) \<notin> (\<lambda>p. id_c (snd p)) ` set (channelMap st)"
      using gen_fresh[OF assms(1), of "idCount st"] by blast
    have b: "identifiedChannel gen (idCount st + 2) (snd p)" if "p \<in> set (channelMap st)" for p
      using e[OF that] by (rule identifiedChannel_mono) simp
    show ?thesis
      unfolding addChannelToMap_new[OF k None] identifiedAgg_def
      using d a b identifiedChannel_new[OF assms(1), of "idCount st"]
      by simp
  next
    case (Some ch)
    then have m: "(keyOf up nm, ch) \<in> set (channelMap st)" by (rule map_of_SomeD)
    define ch' where "ch' = ch\<lparr>sources := sources ch @ [newSource (gen (idCount st)) u]\<rparr>"
    have c: "identifiedChannel gen (idCount st + 1) ch'"
      unfolding ch'_def using assms(1) e[OF m] by (simp add: identifiedChannel_add)
    have b: "identifiedChannel gen (idCount st + 1) (snd p)" if "p \<in> set (channelMap st)" for p
      using e[OF that] by (rule identifiedChannel_mono) simp
    have d': "map (\<lambda>p. id_c (snd p)) (mapSet (keyOf up nm) ch' (channelMap st))
        = map (\<lambda>p. id_c (snd p)) (channelMap st)"
      using Some by (rule mapSet_ids) (simp add: ch'_def)
    have f: "identifiedChannel gen (idCount st + 1) (snd p)"
      if "p \<in> set (mapSet (keyOf up nm) ch' (channelMap st))" for p
    proof -
      from that have "p = (keyOf up nm, ch') \<or> p \<in> set (channelMap st)"
        using set_mapSet[of "keyOf up nm" ch' "channelMap st"] by auto
      then show ?thesis
      proof
        assume "p = (keyOf up nm, ch')"
        with c show ?thesis by simp
      next
        assume "p \<in> set (channelMap st)"
        then show ?thesis by (rule b)
      qed
    qed
    have g: "identifiedAgg gen (st\<lparr>channelMap := mapSet (keyOf up nm) ch' (channelMap st),
        idCount := idCount st + 1\<rparr>)"
      unfolding identifiedAgg_def using d d' f by simp
    show ?thesis
      unfolding addChannelToMap_old[OF k Some]
      using assms(2) g by (simp add: ch'_def)
  qed
qed

lemma fold_addRecord_identified:
  "inj gen \<Longrightarrow> identifiedAgg gen st \<Longrightarrow> identifiedAgg gen (fold (addRecord up gen cat) rs st)"
  by (induction rs arbitrary: st) (simp_all add: addRecord_def addChannelToMap_identified)

lemma fold_processPlaylist_identified:
  "inj gen \<Longrightarrow> identifiedAgg gen st \<Longrightarrow> identifiedAgg gen (fold (processPlaylist up gen) pls st)"
proof (induction pls arbitrary: st)
  case Nil
  then show ?case by simp
next
  case (Cons p pls)
  obtain d c where p: "p = (d, c)" by (cases p)
  show ?case
    using Cons.IH[OF Cons.prems(1) fold_addRecord_identified[OF Cons.prems, of up c "recordsOf d"]]
    by (simp add: p processPlaylist_records)
qed

lemma aggregate_wellIdentified:
  assumes "inj gen"
  shows "wellIdentified (parseAndAggregate up gen localeCompare pls)"
proof -
  define st where "st = fold (processPlaylist up gen) pls \<lparr>channelMap = [], idCount = 0\<rparr>"
  have i: "identifiedAgg gen st"
    unfolding st_def using assms
    by (rule fold_processPlaylist_identified) (simp add: identifiedAgg_def)
  have m: "mset (parseAndAggregate up gen localeCompare pls) = mset (map snd (channelMap st))"
    by (simp add: parseAndAggregate_def st_def mset_sortBy)
  have "mset (map id_c (parseAndAggregate up gen localeCompare pls))
      = image_mset id_c (mset (map snd (channelMap st)))"
    unfolding m[symmetric] by simp
  also have "\<dots> = mset (map (\<lambda>p. id_c (snd p)) (channelMap st))"
    by (simp add: multiset.map_comp comp_def)
  finally have "distinct (map id_c (parseAndAggregate up gen localeCompare pls))
      \<longleftrightarrow> distinct (map (\<lambda>p. id_c (snd p)) (channelMap st))"
    by (rule mset_eq_imp_distinct_iff)
  with i have d: "distinct (map id_c (parseAndAggregate up gen localeCompare pls))"
    by (simp add: identifiedAgg_def)
  have "set (parseAndAggregate up gen localeCompare pls) = snd ` set (channelMap st)"
    by (simp add: parseAndAggregate_def st_def set_sortBy)
  with i have "\<forall>ch \<in> set (parseAndAggregate up gen localeCompare pls). distinct (map id_s (sources ch))"
    by (fastforce simp: identifiedAgg_def identifiedChannel_def)
  with d show ?thesis
    by (simp add: wellIdentified_def list_all_iff)
qed

lemma wellIdentified_filter: "wellIdentified cs \<Longrightarrow> wellIdentified (filter P cs)"
  by (simp add: wellIdentified_def distinct_map_filter list_all_iff)

text \<open>
  C7. In every state of the catalog an observer can see, that is in the catalog the
  aggregator returns and in every state a check cycle passes through (after the
  marking and after each batch), every source, the one kept as \<open>bestSource\<close>
  included, has a latency only with the status \<open>online\<close>, and that latency is not
  negative. A probe that does not end \<open>online\<close>
  carries no latency, and the marking sets the status \<open>checking\<close> and clears the
  latency.
\<close>

theorem C7_latency_only_online:
  "(reachable cs' \<longrightarrow> catalogOK cs')
   \<and> catalogOK (parseAndAggregate up gen localeCompare pls)
   \<and> (catalogOK prev \<longrightarrow> list_all catalogOK (runCheck net isChecking targets prev))
   \<and> (catalogOK cs \<longleftrightarrow>
        (\<forall>ch\<in>set cs. \<forall>s. s \<in> set (sources ch) \<or> bestSource ch = Some s \<longrightarrow>
           (status s \<noteq> Online \<longrightarrow> latency s = None) \<and> (\<forall>l. latency s = Some l \<longrightarrow> 0 \<le> l)))
   \<and> (r_status (checkSource t out) \<noteq> Online \<longrightarrow> r_latency (checkSource t out) = None)
   \<and> (\<forall>l. r_latency (checkSource t out) = Some l \<longrightarrow> 0 \<le> l)
   \<and> (findIndex (\<lambda>c. id_c c = channelId t') next = Some i
        \<and> findIndex (\<lambda>s. id_s s = sourceId t') (sources (next ! i)) = Some j
       \<longrightarrow> status (sources (markOne t' next ! i) ! j) = Checking
           \<and> latency (sources (markOne t' next ! i) ! j) = None)"
proof -
  have "catalogOK cs \<longleftrightarrow>
        (\<forall>ch\<in>set cs. \<forall>s. s \<in> set (sources ch) \<or> bestSource ch = Some s \<longrightarrow>
           (status s \<noteq> Online \<longrightarrow> latency s = None) \<and> (\<forall>l. latency s = Some l \<longrightarrow> 0 \<le> l))"
    by (rule catalogOK_iff)
  moreover have "r_status (checkSource t out) \<noteq> Online \<longrightarrow> r_latency (checkSource t out) = None"
    and "\<forall>l. r_latency (checkSource t out) = Some l \<longrightarrow> 0 \<le> l"
    using checkSource_resultOK[of t out]
    by (auto simp: resultOK_def split: option.splits)
  ultimately show ?thesis
    using reachable_OK aggregate_OK runCheck_OK markOne_marks by blast
qed

theorem C7_latency_only_online_witness:
  "catalogOK markedAgain
   \<and> list_all catalogOK (runCheck exampleNet False exampleCatalog exampleCatalog)
   \<and> length (runCheck exampleNet False exampleCatalog exampleCatalog) = 2
   \<and> r_latency (checkSource \<lparr>channelId = [0], sourceId = [2], t_url = js ''http://b''\<rparr> Throws) = None
   \<and> status (sources (markOne \<lparr>channelId = [0], sourceId = [2], t_url = js ''http://b''\<rparr>
                checkedCatalog ! 0) ! 1) = Checking
   \<and> latency (sources (markOne \<lparr>channelId = [0], sourceId = [2], t_url = js ''http://b''\<rparr>
                checkedCatalog ! 0) ! 1) = None"
proof -
  have n: "length (runCheck exampleNet False exampleCatalog exampleCatalog) = 2"
    by code_simp
  have s: "r_status (checkSource \<lparr>channelId = [0], sourceId = [2], t_url = js ''http://b''\<rparr> Throws)
      \<noteq> Online"
    by code_simp
  have f: "findIndex (\<lambda>c. id_c c = channelId \<lparr>channelId = [0], sourceId = [2], t_url = js ''http://b''\<rparr>)
        checkedCatalog = Some 0"
    "findIndex (\<lambda>s. id_s s = sourceId \<lparr>channelId = [0], sourceId = [2], t_url = js ''http://b''\<rparr>)
        (sources (checkedCatalog ! 0)) = Some 1"
    by code_simp+
  from C7_latency_only_online[of markedAgain upperBasicLatin exampleGen "\<lambda>a b. 0"
      "[(js ''CCTV1,http://a'' @ [10] @ js ''CCTV 1,http://b'', China)]" exampleCatalog exampleNet
      False exampleCatalog "[]" "\<lparr>channelId = [0], sourceId = [2], t_url = js ''http://b''\<rparr>" Throws
      "\<lparr>channelId = [0], sourceId = [2], t_url = js ''http://b''\<rparr>" checkedCatalog 0 1]
  show ?thesis
    using n s f reachable_markedAgain unfolding exampleCatalog_def[symmetric] by blast
qed

section \<open>The best source and the first source\<close>

lemma aggregate_no_bestSource:
  "list_all (\<lambda>ch. bestSource ch = None) (parseAndAggregate up gen localeCompare pls)"
  using aggregate_fresh[of up gen localeCompare pls]
  by (simp add: list_all_iff freshChannel_def)

lemma writeBackOne_bestSource:
  assumes "findIndex (\<lambda>c. id_c c = r_channelId res) next = Some i"
    and "findIndex (\<lambda>s. id_s s = r_sourceId res) (sources (next ! i)) = Some j"
  shows "bestSource (writeBackOne res next ! i) = Some (hd (sources (writeBackOne res next ! i)))"
proof -
  from assms(2) have "j < length (sources (next ! i))"
    using findIndex_Some by fastforce
  then have "sources (writeBackOne res next ! i) \<noteq> []"
    unfolding writeBackOne_found(1)[OF assms]
    by (metis length_greater_0_conv length_list_update less_nat_zero_code sortSources_length
        gr_implies_not_zero list.size(3))
  then show ?thesis
    unfolding writeBackOne_found(2)[OF assms] by (cases "sources (writeBackOne res next ! i)") simp_all
qed

text \<open>
  C5 on the example. After the first cycle \<open>bestSource\<close> is the first source, the
  one that answered. The state in which a second cycle has marked the sources can be
  seen, and there \<open>bestSource\<close> is present and is not the first source: the first
  source has the status \<open>checking\<close> and no latency, and \<open>bestSource\<close> is still the
  copy with the status \<open>online\<close> and the latency 300. The marking replaces
  \<open>sources\<close> and leaves \<open>bestSource\<close> as it was; the write-back sets it anew.
\<close>

theorem C5_bestSource_stale_after_marking:
  "reachable markedAgain
   \<and> \<not> list_all bestIsFirst markedAgain
   \<and> list_all bestIsFirst checkedCatalog
   \<and> map bestSource checkedCatalog
     = [Some \<lparr>id_s = [1], url = js ''http://a'', status = Online, latency = Some 300,
              resolution = Some (js ''720P'')\<rparr>]
   \<and> map (\<lambda>ch. hd (sources ch)) checkedCatalog
     = [\<lparr>id_s = [1], url = js ''http://a'', status = Online, latency = Some 300,
         resolution = Some (js ''720P'')\<rparr>]
   \<and> map bestSource markedAgain
     = [Some \<lparr>id_s = [1], url = js ''http://a'', status = Online, latency = Some 300,
              resolution = Some (js ''720P'')\<rparr>]
   \<and> map (\<lambda>ch. hd (sources ch)) markedAgain
     = [\<lparr>id_s = [1], url = js ''http://a'', status = Checking, latency = None,
         resolution = Some (js ''720P'')\<rparr>]"
proof -
  have "\<not> list_all bestIsFirst markedAgain
   \<and> list_all bestIsFirst checkedCatalog
   \<and> map bestSource checkedCatalog
     = [Some \<lparr>id_s = [1], url = js ''http://a'', status = Online, latency = Some 300,
              resolution = Some (js ''720P'')\<rparr>]
   \<and> map (\<lambda>ch. hd (sources ch)) checkedCatalog
     = [\<lparr>id_s = [1], url = js ''http://a'', status = Online, latency = Some 300,
         resolution = Some (js ''720P'')\<rparr>]
   \<and> map bestSource markedAgain
     = [Some \<lparr>id_s = [1], url = js ''http://a'', status = Online, latency = Some 300,
              resolution = Some (js ''720P'')\<rparr>]
   \<and> map (\<lambda>ch. hd (sources ch)) markedAgain
     = [\<lparr>id_s = [1], url = js ''http://a'', status = Checking, latency = None,
         resolution = Some (js ''720P'')\<rparr>]"
    by code_simp
  with reachable_markedAgain show ?thesis
    by blast
qed

section \<open>The resolution label across cycles\<close>

text \<open>
  C10. The write-back of a result replaces the source it finds by that source with
  the result's status, latency and resolution, whatever resolution the source had.
  The resolution of a result is absent when the probe throws, when the response is
  not a success, when there is no chunk to read, and when the chunk holds no
  \<open>RESOLUTION=\<close> marker. So the cycle over a channel with one source leaves that
  source with the resolution of this cycle's probe: a label from an earlier cycle
  is gone after a probe that yields none. The same holds for every result of a batch
  and for every task of a cycle. In a catalog whose identifiers identify, the
  write-back of a batch whose results name different sources leaves, at the place each
  result names, the source that was there with the three fields of that result. The
  batches of a cycle together are the write-back of the results of all its tasks, the
  k-th task probed with the k-th outcome. So after a cycle every source a task names
  is the source from before the cycle with the status, latency and resolution of its
  probe in this cycle, and nothing of its earlier resolution. The identifiers are
  the unique ones of the specification: the aggregator's catalog has them when the
  generator never returns a value twice, a cycle keeps them, and so does a filtered
  view of the catalog, which is what a cycle is started on.
\<close>

theorem C10_resolution_overwritten:
  "(findIndex (\<lambda>c. id_c c = r_channelId res) next = Some i
      \<and> findIndex (\<lambda>s. id_s s = r_sourceId res) (sources (next ! i)) = Some j
     \<longrightarrow> mset (sources (writeBackOne res next ! i))
         = add_mset ((sources (next ! i) ! j)\<lparr>status := r_status res, latency := r_latency res,
                       resolution := r_resolution res\<rparr>)
             (mset (sources (next ! i)) - {#sources (next ! i) ! j#}))
   \<and> r_resolution (checkSource t Throws) = None
   \<and> r_resolution (checkSource t (Response False ms b)) = None
   \<and> r_resolution (checkSource t (Response True ms NoBody)) = None
   \<and> r_resolution (checkSource t (Response True ms ReadFails)) = None
   \<and> r_resolution (checkSource t (Response True ms NoValue)) = None
   \<and> (heights text = [] \<longrightarrow> r_resolution (checkSource t (Response True ms (Chunk text))) = None)
   \<and> (sources ch = [s] \<and> r_resolution (checkSource \<lparr>channelId = id_c ch, sourceId = id_s s,
                                               t_url = url s\<rparr> (net 0)) = None
      \<longrightarrow> map (\<lambda>c. map resolution (sources c)) (last (runCheck net False [ch] [ch])) = [[None]])
   \<and> (wellIdentified prev
        \<and> distinct (map (\<lambda>r. (r_channelId r, r_sourceId r)) results)
        \<and> r \<in> set results
      \<longrightarrow> set (sourcesAt (writeBack results prev) (r_channelId r) (r_sourceId r))
          = writeFields r ` set (sourcesAt prev (r_channelId r) (r_sourceId r)))
   \<and> last (before # batches network tasks i0 before)
       = writeBack (map (\<lambda>k. checkSource (tasks ! k) (network k)) [i0 ..< length tasks]) before
   \<and> (wellIdentified catalog \<and> wellIdentified targets \<and> targets \<noteq> []
        \<and> k < length (tasksOf targets)
      \<longrightarrow> set (sourcesAt (last (runCheck outcomes False targets catalog))
                 (channelId (tasksOf targets ! k)) (sourceId (tasksOf targets ! k)))
          = writeFields (checkSource (tasksOf targets ! k) (outcomes k))
              ` set (sourcesAt catalog (channelId (tasksOf targets ! k))
                       (sourceId (tasksOf targets ! k))))
   \<and> (wellIdentified catalog
      \<longrightarrow> list_all wellIdentified (runCheck outcomes isChecking targets catalog))
   \<and> (inj gen \<longrightarrow> wellIdentified (parseAndAggregate toUpperCase gen localeCompare playlists))
   \<and> (wellIdentified catalog \<longrightarrow> wellIdentified (filter P catalog))"
proof -
  have c1: "map (\<lambda>c. map resolution (sources c)) (last (runCheck net False [ch] [ch])) = [[None]]"
    if "sources ch = [s]" and "r_resolution (checkSource \<lparr>channelId = id_c ch, sourceId = id_s s,
                                               t_url = url s\<rparr> (net 0)) = None"
    unfolding runCheck_single[OF that(1)] using that(2) by simp
  have k: "(\<lambda>r. (r_channelId r, r_sourceId r)) = resultKey"
    by (rule ext) (simp add: resultKey_def)
  have c2: "wellIdentified prev
        \<and> distinct (map (\<lambda>r. (r_channelId r, r_sourceId r)) results)
        \<and> r \<in> set results
      \<longrightarrow> set (sourcesAt (writeBack results prev) (r_channelId r) (r_sourceId r))
          = writeFields r ` set (sourcesAt prev (r_channelId r) (r_sourceId r))"
    unfolding k by (intro impI, elim conjE, rule writeBack_each_result; assumption)
  have c3: "last (before # batches network tasks i0 before)
       = writeBack (map (\<lambda>k. checkSource (tasks ! k) (network k)) [i0 ..< length tasks]) before"
    by (rule batches_last)
  have c4: "wellIdentified catalog \<and> wellIdentified targets \<and> targets \<noteq> []
        \<and> k < length (tasksOf targets)
      \<longrightarrow> set (sourcesAt (last (runCheck outcomes False targets catalog))
                 (channelId (tasksOf targets ! k)) (sourceId (tasksOf targets ! k)))
          = writeFields (checkSource (tasksOf targets ! k) (outcomes k))
              ` set (sourcesAt catalog (channelId (tasksOf targets ! k))
                       (sourceId (tasksOf targets ! k)))"
    by (intro impI, elim conjE, rule runCheck_each_task; assumption)
  have c5: "wellIdentified catalog
      \<longrightarrow> list_all wellIdentified (runCheck outcomes isChecking targets catalog)"
    by (intro impI, rule runCheck_wellIdentified)
  have c0: "findIndex (\<lambda>c. id_c c = r_channelId res) next = Some i
      \<and> findIndex (\<lambda>s. id_s s = r_sourceId res) (sources (next ! i)) = Some j
     \<longrightarrow> mset (sources (writeBackOne res next ! i))
         = add_mset ((sources (next ! i) ! j)\<lparr>status := r_status res, latency := r_latency res,
                       resolution := r_resolution res\<rparr>)
             (mset (sources (next ! i)) - {#sources (next ! i) ! j#})"
    by (intro impI, elim conjE, rule writeBackOne_mset; assumption)
  have n1: "r_resolution (checkSource t Throws) = None"
    and n2: "r_resolution (checkSource t (Response False ms b)) = None"
    and n3: "r_resolution (checkSource t (Response True ms NoBody)) = None"
    and n4: "r_resolution (checkSource t (Response True ms ReadFails)) = None"
    and n5: "r_resolution (checkSource t (Response True ms NoValue)) = None"
    and n6: "heights text = [] \<longrightarrow> r_resolution (checkSource t (Response True ms (Chunk text))) = None"
    using checkSource_no_resolution by blast+
  have c1': "sources ch = [s] \<and> r_resolution (checkSource \<lparr>channelId = id_c ch, sourceId = id_s s,
                                               t_url = url s\<rparr> (net 0)) = None
      \<longrightarrow> map (\<lambda>c. map resolution (sources c)) (last (runCheck net False [ch] [ch])) = [[None]]"
    using c1 by blast
  have c6: "inj gen \<longrightarrow> wellIdentified (parseAndAggregate toUpperCase gen localeCompare playlists)"
    by (intro impI, rule aggregate_wellIdentified)
  have c7: "wellIdentified catalog \<longrightarrow> wellIdentified (filter P catalog)"
    by (intro impI, rule wellIdentified_filter)
  show ?thesis
    by (intro conjI c0 n1 n2 n3 n4 n5 n6 c1' c2 c3 c4 c5 c6 c7)
qed

theorem C10_resolution_overwritten_witness:
  "map (\<lambda>c. map resolution (sources c))
     (last (runCheck (\<lambda>k. Response True 120 (Chunk (js ''#EXTM3U'')))  False
        [\<lparr>id_c = [0], name = js ''CCTV1'', group_c = js ''Other'', category = China,
          sources = [\<lparr>id_s = [1], url = js ''http://a'', status = Online, latency = Some 300,
                      resolution = Some (js ''720P'')\<rparr>],
          bestSource = None\<rparr>]
        [\<lparr>id_c = [0], name = js ''CCTV1'', group_c = js ''Other'', category = China,
          sources = [\<lparr>id_s = [1], url = js ''http://a'', status = Online, latency = Some 300,
                      resolution = Some (js ''720P'')\<rparr>],
          bestSource = None\<rparr>]))
   = [[None]]
   \<and> mset (sources (writeBackOne
               (checkSource \<lparr>channelId = [0], sourceId = [1], t_url = js ''http://a''\<rparr> Throws)
               checkedCatalog ! 0))
       = add_mset ((sources (checkedCatalog ! 0) ! 0)\<lparr>status := Error, latency := None,
                     resolution := None\<rparr>)
           (mset (sources (checkedCatalog ! 0)) - {#sources (checkedCatalog ! 0) ! 0#})
   \<and> map resolution (sourcesAt labelledCatalog [0] [2]) = [Some (js ''1080P'')]
   \<and> resolution ` set (sourcesAt
         (writeBack [checkSource \<lparr>channelId = [0], sourceId = [1], t_url = js ''http://a''\<rparr> Throws,
                     checkSource \<lparr>channelId = [0], sourceId = [2], t_url = js ''http://b''\<rparr>
                       (Response True 120 (Chunk (js ''#EXTM3U'')))]
            labelledCatalog) [0] [2]) = {None}
   \<and> resolution ` set (sourcesAt
         (last (runCheck unlabelledNet False labelledCatalog labelledCatalog)) [0] [2]) = {None}
   \<and> list_all wellIdentified (runCheck unlabelledNet False labelledCatalog labelledCatalog)
   \<and> wellIdentified exampleCatalog
   \<and> wellIdentified (filter (\<lambda>ch. category ch = China) labelledCatalog)"
proof -
  define t1 where "t1 = \<lparr>channelId = [0], sourceId = [1], t_url = js ''http://a''\<rparr>"
  define t2 where "t2 = \<lparr>channelId = [0], sourceId = [2], t_url = js ''http://b''\<rparr>"
  define r1 where "r1 = checkSource t1 Throws"
  define r2 where "r2 = checkSource t2 (Response True 120 (Chunk (js ''#EXTM3U'')))"
  have h: "heights (js ''#EXTM3U'') = []"
    by code_simp
  have f: "findIndex (\<lambda>c. id_c c = r_channelId r1) checkedCatalog = Some 0"
    "findIndex (\<lambda>s. id_s s = r_sourceId r1) (sources (checkedCatalog ! 0)) = Some 0"
    unfolding r1_def t1_def by code_simp+
  have w: "wellIdentified labelledCatalog"
    by code_simp
  have d: "distinct (map (\<lambda>r. (r_channelId r, r_sourceId r)) [r1, r2])"
    unfolding r1_def r2_def t1_def t2_def by code_simp
  have ids: "r_channelId r2 = [0]" "r_sourceId r2 = [2]" "r_resolution r2 = None"
    unfolding r2_def t2_def by code_simp+
  have n: "labelledCatalog \<noteq> []"
    by (simp add: labelledCatalog_def)
  have tk: "tasksOf labelledCatalog = [t1, t2]"
    unfolding t1_def t2_def by (simp add: tasksOf_def labelledCatalog_def)
  have o: "unlabelledNet (Suc 0) = Response True 120 (Chunk (js ''#EXTM3U''))"
    by (simp add: unlabelledNet_def)
  have t2': "channelId t2 = [0]" "sourceId t2 = [2]"
    by (simp_all add: t2_def)
  have at: "sourcesAt labelledCatalog [0] [2]
      = [\<lparr>id_s = [2], url = js ''http://b'', status = Online, latency = Some 400,
          resolution = Some (js ''1080P'')\<rparr>]"
    by (simp add: sourcesAt_def labelledCatalog_def)
  note T = C10_resolution_overwritten[of r1 checkedCatalog 0 0 t1 120 "Chunk (js ''#EXTM3U'')"
      "js ''#EXTM3U''"
      "\<lparr>id_c = [0], name = js ''CCTV1'', group_c = js ''Other'', category = China,
          sources = [\<lparr>id_s = [1], url = js ''http://a'', status = Online, latency = Some 300,
                      resolution = Some (js ''720P'')\<rparr>],
          bestSource = None\<rparr>"
      "\<lparr>id_s = [1], url = js ''http://a'', status = Online, latency = Some 300,
                      resolution = Some (js ''720P'')\<rparr>"
      "\<lambda>k. Response True 120 (Chunk (js ''#EXTM3U''))"
      labelledCatalog "[r1, r2]" r2
      labelledCatalog unlabelledNet "tasksOf labelledCatalog" 0
      labelledCatalog labelledCatalog 1 unlabelledNet False
      exampleGen upperBasicLatin "\<lambda>a b. 0"
      "[(js ''CCTV1,http://a'' @ [10] @ js ''CCTV 1,http://b'', China)]"
      "\<lambda>ch. category ch = China"]
  note T7 = T[THEN conjunct2, THEN conjunct2, THEN conjunct2, THEN conjunct2, THEN conjunct2,
      THEN conjunct2, THEN conjunct2]
  note single = T7[THEN conjunct1]
  note batch = T7[THEN conjunct2, THEN conjunct1]
  note cycle = T7[THEN conjunct2, THEN conjunct2, THEN conjunct2, THEN conjunct1]
  note ident = T7[THEN conjunct2, THEN conjunct2, THEN conjunct2, THEN conjunct2, THEN conjunct1]
  note loaded = T7[THEN conjunct2, THEN conjunct2, THEN conjunct2, THEN conjunct2, THEN conjunct2,
      THEN conjunct1]
  note view = T7[THEN conjunct2, THEN conjunct2, THEN conjunct2, THEN conjunct2, THEN conjunct2,
      THEN conjunct2]
  have g: "inj exampleGen"
    by (simp add: inj_def exampleGen_def)
  have a: "map (\<lambda>c. map resolution (sources c))
     (last (runCheck (\<lambda>k. Response True 120 (Chunk (js ''#EXTM3U'')))  False
        [\<lparr>id_c = [0], name = js ''CCTV1'', group_c = js ''Other'', category = China,
          sources = [\<lparr>id_s = [1], url = js ''http://a'', status = Online, latency = Some 300,
                      resolution = Some (js ''720P'')\<rparr>],
          bestSource = None\<rparr>]
        [\<lparr>id_c = [0], name = js ''CCTV1'', group_c = js ''Other'', category = China,
          sources = [\<lparr>id_s = [1], url = js ''http://a'', status = Online, latency = Some 300,
                      resolution = Some (js ''720P'')\<rparr>],
          bestSource = None\<rparr>]))
   = [[None]]"
    using single T[THEN conjunct2, THEN conjunct2, THEN conjunct2, THEN conjunct2, THEN conjunct2,
      THEN conjunct2, THEN conjunct1] h
    by (simp add: t1_def)
  have r1': "r_status r1 = Error" "r_latency r1 = None" "r_resolution r1 = None"
    by (simp_all add: r1_def checkSource_def)
  have z: "mset (sources (writeBackOne r1 checkedCatalog ! 0))
       = add_mset ((sources (checkedCatalog ! 0) ! 0)\<lparr>status := Error, latency := None,
                     resolution := None\<rparr>)
           (mset (sources (checkedCatalog ! 0)) - {#sources (checkedCatalog ! 0) ! 0#})"
    using T[THEN conjunct1] f by (simp only: r1' simp_thms)
  have b: "resolution ` set (sourcesAt (writeBack [r1, r2] labelledCatalog) [0] [2]) = {None}"
    using batch w d by (simp add: ids at writeFields_def)
  have c: "resolution ` set (sourcesAt
         (last (runCheck unlabelledNet False labelledCatalog labelledCatalog)) [0] [2]) = {None}"
    using cycle w n ids by (simp add: tk o t2' at writeFields_def r2_def)
  have e: "list_all wellIdentified (runCheck unlabelledNet False labelledCatalog labelledCatalog)"
    using ident w by simp
  have l: "wellIdentified exampleCatalog"
    using loaded g by (simp add: exampleCatalog_def)
  have v: "wellIdentified (filter (\<lambda>ch. category ch = China) labelledCatalog)"
    using view w by simp
  show ?thesis
    using a z b c e l v by (simp add: at r1_def r2_def t1_def t2_def)
qed

section \<open>The re-ranking\<close>

text \<open>
  C2. \<open>getScore\<close> is 100000 minus the latency for an online source, 50000 for
  \<open>error\<close>, 100 for \<open>checking\<close> and 0 for \<open>idle\<close> and \<open>offline\<close>; the sort in the
  write-back keeps the sources and puts them in descending score; sources with the
  statuses online at 300 ms, error, checking and offline, in whatever order they
  stand, come out in that order; and the sources of a channel that a write-back has
  updated are in descending score.
\<close>

theorem C2_scoring_and_order:
  "getScore s =
     (case status s of
        Online \<Rightarrow> 100000 - (case latency s of None \<Rightarrow> 0 | Some l \<Rightarrow> l)
      | Error \<Rightarrow> 50000 | Checking \<Rightarrow> 100 | Idle \<Rightarrow> 0 | Offline \<Rightarrow> 0)
   \<and> mset (sortSources xs) = mset xs
   \<and> sorted_wrt (\<lambda>x y. getScore y \<le> getScore x) (sortSources xs)
   \<and> (status a = Online \<and> latency a = Some 300 \<and> status b = Error
        \<and> status c = Checking \<and> status d = Offline \<and> mset ys = {#a, b, c, d#}
       \<longrightarrow> sortSources ys = [a, b, c, d])
   \<and> (findIndex (\<lambda>c. id_c c = r_channelId res) next = Some i
        \<and> findIndex (\<lambda>s. id_s s = r_sourceId res) (sources (next ! i)) = Some j
       \<longrightarrow> sorted_wrt (\<lambda>x y. getScore y \<le> getScore x) (sources (writeBackOne res next ! i)))"
proof -
  have "getScore s =
     (case status s of
        Online \<Rightarrow> 100000 - (case latency s of None \<Rightarrow> 0 | Some l \<Rightarrow> l)
      | Error \<Rightarrow> 50000 | Checking \<Rightarrow> 100 | Idle \<Rightarrow> 0 | Offline \<Rightarrow> 0)"
    by (cases "status s") (simp_all add: getScore_def)
  moreover have "sorted_wrt (\<lambda>x y. getScore y \<le> getScore x) (sources (writeBackOne res next ! i))"
    if "findIndex (\<lambda>c. id_c c = r_channelId res) next = Some i"
      and "findIndex (\<lambda>s. id_s s = r_sourceId res) (sources (next ! i)) = Some j"
    unfolding writeBackOne_found(1)[OF that] by (rule sortSources_descending)
  ultimately show ?thesis
    using sortSources_mset sortSources_descending sortSources_four by blast
qed

theorem C2_scoring_and_order_witness:
  "sortSources [srcOf 1 Offline None, srcOf 2 Checking None, srcOf 3 Error None,
                srcOf 4 Online (Some 300)]
   = [srcOf 4 Online (Some 300), srcOf 3 Error None, srcOf 2 Checking None,
      srcOf 1 Offline None]
   \<and> sorted_wrt (\<lambda>x y. getScore y \<le> getScore x)
         (sources (writeBackOne (checkSource \<lparr>channelId = [0], sourceId = [2],
              t_url = js ''http://b''\<rparr> (Response True 20 NoBody)) checkedCatalog ! 0))"
proof -
  have f: "findIndex (\<lambda>c. id_c c = r_channelId (checkSource \<lparr>channelId = [0], sourceId = [2],
          t_url = js ''http://b''\<rparr> (Response True 20 NoBody))) checkedCatalog = Some 0"
    "findIndex (\<lambda>s. id_s s = r_sourceId (checkSource \<lparr>channelId = [0], sourceId = [2],
          t_url = js ''http://b''\<rparr> (Response True 20 NoBody))) (sources (checkedCatalog ! 0)) = Some 1"
    by code_simp+
  have m: "status (srcOf 4 Online (Some 300)) = Online \<and> latency (srcOf 4 Online (Some 300)) = Some 300
      \<and> status (srcOf 3 Error None) = Error \<and> status (srcOf 2 Checking None) = Checking
      \<and> status (srcOf 1 Offline None) = Offline
      \<and> mset [srcOf 1 Offline None, srcOf 2 Checking None, srcOf 3 Error None,
               srcOf 4 Online (Some 300)]
        = {#srcOf 4 Online (Some 300), srcOf 3 Error None, srcOf 2 Checking None,
            srcOf 1 Offline None#}"
    by (simp add: srcOf_def)
  from C2_scoring_and_order[of "srcOf 1 Idle None" "[]" "srcOf 4 Online (Some 300)"
      "srcOf 3 Error None" "srcOf 2 Checking None" "srcOf 1 Offline None"
      "[srcOf 1 Offline None, srcOf 2 Checking None, srcOf 3 Error None,
        srcOf 4 Online (Some 300)]"
      "checkSource \<lparr>channelId = [0], sourceId = [2], t_url = js ''http://b''\<rparr>
         (Response True 20 NoBody)" checkedCatalog 0 1] f m
  show ?thesis
    by blast
qed

end
